theory Spec2Isabelle
  imports Main
begin

section \<open>The IR model\<close>

text \<open>
  The pass of \<^verbatim>\<open>p2.cpp\<close> rewrites an LLVM module in place. The model keeps the
  part of the IR that the pass reads and writes.

  \<^item> A \<^verbatim>\<open>Value*\<close> is a name together with its type; a value never changes its type, so
    two references denote the same value exactly when they are equal as pairs.
  \<^item> A \<^verbatim>\<open>Type*\<close> is a number: LLVM types are uniqued, and the code compares them by
    pointer.
  \<^item> An instruction is its own value (\<open>self\<close>), its opcode, its operand references, the
    volatile bit that \<^verbatim>\<open>isVolatile()\<close> reads, and \<open>special\<close>, which stands for every
    other piece of state that \<^verbatim>\<open>isIdenticalTo\<close> compares (predicates, alignment,
    wrapping flags, incoming blocks of a phi).
  \<^item> A basic block is the list of its instructions, a function the list of its blocks, a
    module the list of its functions. An iterator into a block is an index into its list.
  \<^item> The users of an instruction are instructions of the same function, so the use list
    of an instruction and \<^verbatim>\<open>replaceAllUsesWith\<close> range over the function that holds it.
\<close>

type_synonym ty = nat

datatype val = Val (vname: nat) (vty: ty)

datatype term_op =
    Ret | Br | Switch | IndirectBr | Invoke | Resume | Unreachable
  | CleanupRet | CatchRet | CatchSwitch | CallBr

datatype unary_op = FNeg

datatype binary_op =
    Add | FAdd | Sub | FSub | Mul | FMul | UDiv | SDiv | FDiv | URem | SRem | FRem
  | Shl | LShr | AShr | And | Or | Xor

datatype memory_op =
    Alloca | Load | Store | GetElementPtr | Fence | AtomicCmpXchg | AtomicRMW

datatype cast_op =
    Trunc | ZExt | SExt | FPToUI | FPToSI | UIToFP | SIToFP | FPTrunc | FPExt
  | PtrToInt | IntToPtr | BitCast | AddrSpaceCast

datatype funclet_pad_op = CleanupPad | CatchPad

datatype other_op =
    ICmp | FCmp | PHI | Call | Select | UserOp1 | UserOp2 | VAArg
  | ExtractElement | InsertElement | ShuffleVector | ExtractValue | InsertValue
  | LandingPad | Freeze

datatype opcode =
    TermOp term_op | UnaryOp unary_op | BinaryOp binary_op | MemoryOp memory_op
  | CastOp cast_op | FuncletPadOp funclet_pad_op | OtherOp other_op

record instr =
  self :: val
  opcode :: opcode
  operands :: "val list"
  isVolatile :: bool
  special :: nat

type_synonym block = "instr list"
type_synonym func = "block list"
type_synonym module = "func list"


text \<open>
  The statistics registry: the six counters of the pass and the four summary counters.
  An \<^verbatim>\<open>llvm::Statistic\<close> is an unsigned counter; every increment below pairs with one
  instruction or function held in memory, so the counters are natural numbers.
\<close>

record stats =
  CSEDead :: nat
  CSEElim :: nat
  CSESimplify :: nat
  CSELdElim :: nat
  CSEStore2Load :: nat
  CSEStElim :: nat
  nFunctions :: nat
  nInstructions :: nat
  nLoads :: nat
  nStores :: nat

text \<open>
  The library services the pass calls are parameters of the model:
  \<^item> \<open>SimplifyInstruction F I\<close> is the replacement value the simplifier finds for \<open>I\<close> in
    the function \<open>F\<close>, if any;
  \<^item> \<open>getNode F b\<close> answers \<^verbatim>\<open>DT->recalculate(*F); DT->getNode(BB)\<close> for block number
    \<open>b\<close> of \<open>F\<close>: \<open>Some cs\<close> is a node whose children are the blocks numbered \<open>cs\<close>, in the
    order the node lists them; \<open>None\<close> is the null pointer, which the library returns
    for a block that cannot be reached from the entry block;
  \<^item> \<open>mayHaveSideEffects I\<close> is the library predicate of that name.

  The library never offers an instruction as its own simplification, and the children
  of a node are blocks of the function, each once, and never the node's own block. The
  model runs on any parameter; the theorems that need these facts assume them.
\<close>

record services =
  SimplifyInstruction :: "func \<Rightarrow> instr \<Rightarrow> val option"
  getNode :: "func \<Rightarrow> nat \<Rightarrow> nat list option"
  mayHaveSideEffects :: "instr \<Rightarrow> bool"

datatype error = NullNode | SelfReplace

section \<open>Operations on instructions\<close>

definition getType :: "instr \<Rightarrow> ty" where
  "getType I = vty (self I)"

text \<open>
  A \<^verbatim>\<open>LoadInst\<close> has one operand and a \<^verbatim>\<open>StoreInst\<close> two, by construction; the pass
  reads operand 0 of loads and operands 0 and 1 of stores only.
\<close>

definition getOperand :: "instr \<Rightarrow> nat \<Rightarrow> val" where
  "getOperand I n = operands I ! n"

definition isTerminator :: "instr \<Rightarrow> bool" where
  "isTerminator I = (case opcode I of TermOp t \<Rightarrow> True | _ \<Rightarrow> False)"

definition isIdenticalTo :: "instr \<Rightarrow> instr \<Rightarrow> bool" where
  "isIdenticalTo I J \<longleftrightarrow>
     opcode I = opcode J \<and> getType I = getType J \<and> operands I = operands J \<and>
     isVolatile I = isVolatile J \<and> special I = special J"

text \<open>The use list of \<open>I\<close> is empty when no instruction of the function names \<open>I\<close>.\<close>

definition use_empty :: "func \<Rightarrow> instr \<Rightarrow> bool" where
  "use_empty F I = list_all (list_all (\<lambda>J. self I \<notin> set (operands J))) F"

definition replaceUsesOfWith :: "val \<Rightarrow> val \<Rightarrow> instr \<Rightarrow> instr" where
  "replaceUsesOfWith old new J =
     J\<lparr>operands := map (\<lambda>v. if v = old then new else v) (operands J)\<rparr>"

definition replaceAllUsesWith :: "val \<Rightarrow> val \<Rightarrow> func \<Rightarrow> func" where
  "replaceAllUsesWith old new F = map (map (replaceUsesOfWith old new)) F"

text \<open>\<open>eraseFromParent b k F\<close> unlinks the instruction at index \<open>k\<close> of block \<open>b\<close>.\<close>

definition eraseFromParent :: "nat \<Rightarrow> nat \<Rightarrow> func \<Rightarrow> func" where
  "eraseFromParent b k F = F[b := take k (F ! b) @ drop (Suc k) (F ! b)]"

section \<open>The rules\<close>

subsection \<open>isDead\<close>

definition isDead :: "func \<Rightarrow> instr \<Rightarrow> bool" where
  "isDead F I =
     (if use_empty F I then
        opcode I \<in> set
          [BinaryOp Add, UnaryOp FNeg, BinaryOp FAdd, BinaryOp Sub, BinaryOp FSub,
           BinaryOp Mul, BinaryOp FMul, BinaryOp UDiv, BinaryOp SDiv, BinaryOp FDiv,
           BinaryOp URem, BinaryOp SRem, BinaryOp FRem, BinaryOp Shl, BinaryOp LShr,
           BinaryOp AShr, BinaryOp And, BinaryOp Or, BinaryOp Xor,
           MemoryOp GetElementPtr,
           CastOp Trunc, CastOp ZExt, CastOp SExt, CastOp FPToUI, CastOp FPToSI,
           CastOp UIToFP, CastOp SIToFP, CastOp FPTrunc, CastOp FPExt, CastOp PtrToInt,
           CastOp IntToPtr, CastOp BitCast, CastOp AddrSpaceCast,
           OtherOp ICmp, OtherOp FCmp, OtherOp PHI, OtherOp Select,
           OtherOp ExtractElement, OtherOp InsertElement, OtherOp ShuffleVector,
           OtherOp ExtractValue, OtherOp InsertValue]
      else False)"

subsection \<open>isValidForCSE\<close>

definition isValidForCSE :: "instr \<Rightarrow> bool" where
  "isValidForCSE I =
     (if opcode I = MemoryOp Load \<or> opcode I = MemoryOp Store \<or>
         opcode I = OtherOp FCmp \<or> opcode I = MemoryOp Alloca \<or>
         opcode I = OtherOp VAArg \<or> opcode I = OtherOp Call \<or>
         isTerminator I
      then False else True)"

lemma length_replaceAllUsesWith [simp]:
  "length (replaceAllUsesWith old new F) = length F"
  by (simp add: replaceAllUsesWith_def)

lemma nth_replaceAllUsesWith [simp]:
  "b < length F \<Longrightarrow>
   replaceAllUsesWith old new F ! b = map (replaceUsesOfWith old new) (F ! b)"
  by (simp add: replaceAllUsesWith_def)

lemma length_eraseFromParent [simp]:
  "length (eraseFromParent b k F) = length F"
  by (simp add: eraseFromParent_def)

lemma nth_eraseFromParent_same [simp]:
  "b < length F \<Longrightarrow> eraseFromParent b k F ! b = take k (F ! b) @ drop (Suc k) (F ! b)"
  by (simp add: eraseFromParent_def)

lemma nth_eraseFromParent_other [simp]:
  "t \<noteq> b \<Longrightarrow> eraseFromParent b k F ! t = F ! t"
  by (simp add: eraseFromParent_def)

subsection \<open>sameBBScan\<close>

text \<open>
  The loop of \<^verbatim>\<open>sameBBScan\<close>: \<open>c\<close> is the index of \<^verbatim>\<open>currentI\<close> in block \<open>b\<close>, \<open>k\<close> the
  loop iterator. The iterator is stepped before the erase, so after an erase the same
  index denotes the successor.
\<close>

function sameBBScan_loop :: "nat \<Rightarrow> nat \<Rightarrow> nat \<Rightarrow> func \<times> stats \<Rightarrow> func \<times> stats" where
  "sameBBScan_loop b c k (F, st) =
     (if b < length F \<and> k < length (F ! b) then
        (if isIdenticalTo (F ! b ! k) (F ! b ! c)
         then sameBBScan_loop b c k
                (eraseFromParent b k
                   (replaceAllUsesWith (self (F ! b ! k)) (self (F ! b ! c)) F),
                 st\<lparr>CSEElim := CSEElim st + 1\<rparr>)
         else sameBBScan_loop b c (Suc k) (F, st))
      else (F, st))"
  apply pat_completeness
  apply (elim Pair_inject)
  apply hypsubst
  apply (rule refl)
  done
termination
  apply (relation "measure (\<lambda>(b, c, k, F, st). length (F ! b) - k)")
    apply simp
   apply (simp, arith)
  apply (simp, arith)
  done

declare sameBBScan_loop.simps [simp del]

definition sameBBScan :: "nat \<Rightarrow> nat \<Rightarrow> func \<times> stats \<Rightarrow> func \<times> stats" where
  "sameBBScan b c s = sameBBScan_loop b c (Suc c) s"

subsection \<open>domBBScan\<close>

text \<open>
  The inner loop of \<^verbatim>\<open>domBBScan\<close> over the block \<open>t\<close> (\<^verbatim>\<open>bb_next\<close>), then the outer
  loop over the children of the node. A null node is dereferenced by \<^verbatim>\<open>Node->begin()\<close>:
  the pass does not survive it, which is the error \<open>NullNode\<close>.
\<close>

function domBBScan_block ::
  "nat \<Rightarrow> nat \<Rightarrow> nat \<Rightarrow> nat \<Rightarrow> func \<times> stats \<Rightarrow> func \<times> stats" where
  "domBBScan_block b c t p (F, st) =
     (if t < length F \<and> p < length (F ! t) then
        (if isIdenticalTo (F ! t ! p) (F ! b ! c)
         then domBBScan_block b c t p
                (eraseFromParent t p
                   (replaceAllUsesWith (self (F ! t ! p)) (self (F ! b ! c)) F),
                 st\<lparr>CSEElim := CSEElim st + 1\<rparr>)
         else domBBScan_block b c t (Suc p) (F, st))
      else (F, st))"
  apply pat_completeness
  apply (elim Pair_inject)
  apply hypsubst
  apply (rule refl)
  done
termination
  apply (relation "measure (\<lambda>(b, c, t, p, F, st). length (F ! t) - p)")
    apply simp
   apply (simp, arith)
  apply (simp, arith)
  done

declare domBBScan_block.simps [simp del]

fun domBBScan_children ::
  "nat \<Rightarrow> nat \<Rightarrow> nat list \<Rightarrow> func \<times> stats \<Rightarrow> func \<times> stats" where
  "domBBScan_children b c [] s = s"
| "domBBScan_children b c (t # ts) s =
     domBBScan_children b c ts (domBBScan_block b c t 0 s)"

definition domBBScan ::
  "services \<Rightarrow> nat \<Rightarrow> nat \<Rightarrow> func \<times> stats \<Rightarrow> error + func \<times> stats" where
  "domBBScan E b c s =
     (case getNode E (fst s) b of
        None \<Rightarrow> Inl NullNode
      | Some cs \<Rightarrow> Inr (domBBScan_children b c cs s))"

subsection \<open>eliminateLoad\<close>

text \<open>
  After erasing \<^verbatim>\<open>nextInst\<close> the source still reads its opcode for the Store test; the
  instruction was a Load, so the test fails and the loop goes on.
\<close>

text \<open>
  The test on a later instruction \<^verbatim>\<open>nextInst\<close> (index \<open>k\<close>) against \<^verbatim>\<open>currentLoad\<close>
  (index \<open>c\<close>): a load, not volatile, same pointer operand, same type.
\<close>

definition redundantLoad :: "func \<Rightarrow> nat \<Rightarrow> nat \<Rightarrow> nat \<Rightarrow> bool" where
  "redundantLoad F b c k \<longleftrightarrow>
     opcode (F ! b ! k) = MemoryOp Load \<and> \<not> isVolatile (F ! b ! k) \<and>
     getOperand (F ! b ! k) 0 = getOperand (F ! b ! c) 0 \<and>
     getType (F ! b ! k) = getType (F ! b ! c)"

function eliminateLoad_loop ::
  "nat \<Rightarrow> nat \<Rightarrow> nat \<Rightarrow> func \<times> stats \<Rightarrow> func \<times> stats" where
  "eliminateLoad_loop b c k (F, st) =
     (if b < length F \<and> k < length (F ! b) then
        (if redundantLoad F b c k
         then eliminateLoad_loop b c k
                (eraseFromParent b k
                   (replaceAllUsesWith (self (F ! b ! k)) (self (F ! b ! c)) F),
                 st\<lparr>CSELdElim := CSELdElim st + 1\<rparr>)
         else if opcode (F ! b ! k) = MemoryOp Store then (F, st)
         else eliminateLoad_loop b c (Suc k) (F, st))
      else (F, st))"
  apply pat_completeness
  apply (elim Pair_inject)
  apply hypsubst
  apply (rule refl)
  done
termination
  apply (relation "measure (\<lambda>(b, c, k, F, st). length (F ! b) - k)")
    apply simp
   apply (simp, arith)
  apply (simp, arith)
  done

declare eliminateLoad_loop.simps [simp del]

definition eliminateLoad :: "nat \<Rightarrow> nat \<Rightarrow> func \<times> stats \<Rightarrow> func \<times> stats" where
  "eliminateLoad b c s = eliminateLoad_loop b c (Suc c) s"

subsection \<open>eliminateStore\<close>

text \<open>
  The result carries \<^verbatim>\<open>inc_flag\<close>: the global is cleared on entry and set only where the
  current store is erased, after the driver's iterator \<^verbatim>\<open>it\<close> has been stepped to the
  successor; that successor has the index \<open>c\<close> once the store is unlinked.

  Where the value that the store writes is the later load itself, the source asks the
  load to replace all its uses with itself. The library asserts that this never
  happens; without assertions its loop over the use list, which holds the store, never
  ends. Either way the pass does not return: the error \<open>SelfReplace\<close>.
\<close>

text \<open>
  The three tests of the loop body on \<^verbatim>\<open>nextInstruction\<close> (index \<open>m\<close>) against
  \<^verbatim>\<open>currentStore\<close> (index \<open>c\<close>), in the order of the source: a load the store forwards
  to; a store that overwrites the current one; an instruction that ends the scan.
\<close>

definition forwardsToLoad :: "func \<Rightarrow> nat \<Rightarrow> nat \<Rightarrow> nat \<Rightarrow> bool" where
  "forwardsToLoad F b c m \<longleftrightarrow>
     opcode (F ! b ! m) = MemoryOp Load \<and> \<not> isVolatile (F ! b ! m) \<and>
     getOperand (F ! b ! m) 0 = getOperand (F ! b ! c) 1 \<and>
     getType (F ! b ! m) = vty (getOperand (F ! b ! c) 0)"

definition overwrittenBy :: "func \<Rightarrow> nat \<Rightarrow> nat \<Rightarrow> nat \<Rightarrow> bool" where
  "overwrittenBy F b c m \<longleftrightarrow>
     opcode (F ! b ! m) = MemoryOp Store \<and>
     getOperand (F ! b ! m) 1 = getOperand (F ! b ! c) 1 \<and>
     \<not> isVolatile (F ! b ! c) \<and>
     vty (getOperand (F ! b ! m) 0) = vty (getOperand (F ! b ! c) 0)"

definition stopsStoreScan :: "services \<Rightarrow> instr \<Rightarrow> bool" where
  "stopsStoreScan E I \<longleftrightarrow>
     opcode I = MemoryOp Load \<or> opcode I = MemoryOp Store \<or>
     opcode I = OtherOp Call \<or> mayHaveSideEffects E I"

function eliminateStore_loop ::
  "services \<Rightarrow> nat \<Rightarrow> nat \<Rightarrow> nat \<Rightarrow> func \<times> stats \<Rightarrow>
   error + (func \<times> stats) \<times> bool" where
  "eliminateStore_loop E b c m (F, st) =
     (if b < length F \<and> m < length (F ! b) then
        (if forwardsToLoad F b c m
         then (if getOperand (F ! b ! c) 0 = self (F ! b ! m) then Inl SelfReplace
               else eliminateStore_loop E b c m
                      (eraseFromParent b m
                         (replaceAllUsesWith (self (F ! b ! m)) (getOperand (F ! b ! c) 0) F),
                       st\<lparr>CSEStore2Load := CSEStore2Load st + 1\<rparr>))
         else if overwrittenBy F b c m
         then Inr ((eraseFromParent b c F, st\<lparr>CSEStElim := CSEStElim st + 1\<rparr>), True)
         else if stopsStoreScan E (F ! b ! m)
         then Inr ((F, st), False)
         else eliminateStore_loop E b c (Suc m) (F, st))
      else Inr ((F, st), False))"
  apply pat_completeness
  apply (elim Pair_inject)
  apply hypsubst
  apply (rule refl)
  done
termination
  apply (relation "measure (\<lambda>(E, b, c, m, F, st). length (F ! b) - m)")
    apply simp
   apply (simp, arith)
  apply (simp, arith)
  done

declare eliminateStore_loop.simps [simp del]

definition eliminateStore ::
  "services \<Rightarrow> nat \<Rightarrow> nat \<Rightarrow> func \<times> stats \<Rightarrow> error + (func \<times> stats) \<times> bool" where
  "eliminateStore E b c s = eliminateStore_loop E b c (Suc c) s"



section \<open>Block lengths never grow\<close>

text \<open>
  The pass only unlinks instructions: after any rule every block is at most as long as
  before, and the number of blocks is the same. The driver's loop terminates by this.
\<close>

definition shrinks :: "func \<Rightarrow> func \<Rightarrow> bool" where
  "shrinks F' F = list_all2 (\<lambda>B' B. length B' \<le> length B) F' F"

lemma shrinks_refl [simp]: "shrinks F F"
  by (simp add: shrinks_def list_all2_refl)

lemma shrinks_trans: "shrinks F'' F' \<Longrightarrow> shrinks F' F \<Longrightarrow> shrinks F'' F"
  unfolding shrinks_def list_all2_conv_all_nth by (metis le_trans)

lemma shrinks_length: "shrinks F' F \<Longrightarrow> length F' = length F"
  by (simp add: shrinks_def list_all2_lengthD)

lemma shrinks_nth: "shrinks F' F \<Longrightarrow> t < length F \<Longrightarrow> length (F' ! t) \<le> length (F ! t)"
  by (simp add: shrinks_def list_all2_conv_all_nth)

lemma shrinks_replaceAllUsesWith [simp]: "shrinks (replaceAllUsesWith old new F) F"
  by (simp add: shrinks_def list_all2_conv_all_nth)

lemma shrinks_eraseFromParent [simp]: "shrinks (eraseFromParent b k F) F"
proof -
  have "length (eraseFromParent b k F ! i) \<le> length (F ! i)" if "i < length F" for i
  proof (cases "i = b")
    case True
    with that show ?thesis by simp
  next
    case False
    then show ?thesis by simp
  qed
  then show ?thesis
    by (simp add: shrinks_def list_all2_conv_all_nth)
qed

lemma shrinks_erase_replace:
  "shrinks F' (eraseFromParent b k (replaceAllUsesWith old new F)) \<Longrightarrow> shrinks F' F"
  by (blast intro: shrinks_trans shrinks_eraseFromParent shrinks_replaceAllUsesWith)

lemma shrinks_erased_replaced [simp]:
  "shrinks (eraseFromParent b k (replaceAllUsesWith old new F)) F"
  by (rule shrinks_trans [OF shrinks_eraseFromParent shrinks_replaceAllUsesWith])

lemma shrinks_sameBBScan_loop: "shrinks (fst (sameBBScan_loop b c k s)) (fst s)"
proof (induction b c k s rule: sameBBScan_loop.induct)
  case (1 b c k F st)
  show ?case
    using "1.IH" by (subst sameBBScan_loop.simps) (auto intro: shrinks_erase_replace)
qed

lemma shrinks_domBBScan_block: "shrinks (fst (domBBScan_block b c t p s)) (fst s)"
proof (induction b c t p s rule: domBBScan_block.induct)
  case (1 b c t p F st)
  show ?case
    using "1.IH" by (subst domBBScan_block.simps) (auto intro: shrinks_erase_replace)
qed

lemma shrinks_domBBScan_children: "shrinks (fst (domBBScan_children b c ts s)) (fst s)"
proof (induction ts arbitrary: s)
  case Nil
  show ?case by simp
next
  case (Cons t ts)
  show ?case
    using Cons [of "domBBScan_block b c t 0 s"] shrinks_domBBScan_block [of b c t 0 s]
    by (auto intro: shrinks_trans)
qed

lemma shrinks_eliminateLoad_loop: "shrinks (fst (eliminateLoad_loop b c k s)) (fst s)"
proof (induction b c k s rule: eliminateLoad_loop.induct)
  case (1 b c k F st)
  show ?case
    using "1.IH" by (subst eliminateLoad_loop.simps) (auto intro: shrinks_erase_replace)
qed

lemma eliminateStore_loop_stop:
  "\<not> (b < length F \<and> m < length (F ! b)) \<Longrightarrow>
   eliminateStore_loop E b c m (F, st) = Inr ((F, st), False)"
  by (subst eliminateStore_loop.simps) (rule if_not_P)

lemma eliminateStore_loop_self:
  "b < length F \<Longrightarrow> m < length (F ! b) \<Longrightarrow> forwardsToLoad F b c m \<Longrightarrow>
   getOperand (F ! b ! c) 0 = self (F ! b ! m) \<Longrightarrow>
   eliminateStore_loop E b c m (F, st) = Inl SelfReplace"
  by (subst eliminateStore_loop.simps) simp

lemma eliminateStore_loop_forward:
  "b < length F \<Longrightarrow> m < length (F ! b) \<Longrightarrow> forwardsToLoad F b c m \<Longrightarrow>
   getOperand (F ! b ! c) 0 \<noteq> self (F ! b ! m) \<Longrightarrow>
   eliminateStore_loop E b c m (F, st) =
   eliminateStore_loop E b c m
     (eraseFromParent b m
        (replaceAllUsesWith (self (F ! b ! m)) (getOperand (F ! b ! c) 0) F),
      st\<lparr>CSEStore2Load := CSEStore2Load st + 1\<rparr>)"
  by (subst eliminateStore_loop.simps) simp

lemma eliminateStore_loop_overwrite:
  "b < length F \<Longrightarrow> m < length (F ! b) \<Longrightarrow> \<not> forwardsToLoad F b c m \<Longrightarrow>
   overwrittenBy F b c m \<Longrightarrow>
   eliminateStore_loop E b c m (F, st) =
   Inr ((eraseFromParent b c F, st\<lparr>CSEStElim := CSEStElim st + 1\<rparr>), True)"
  by (subst eliminateStore_loop.simps) simp

lemma eliminateStore_loop_barrier:
  "b < length F \<Longrightarrow> m < length (F ! b) \<Longrightarrow> \<not> forwardsToLoad F b c m \<Longrightarrow>
   \<not> overwrittenBy F b c m \<Longrightarrow> stopsStoreScan E (F ! b ! m) \<Longrightarrow>
   eliminateStore_loop E b c m (F, st) = Inr ((F, st), False)"
  by (subst eliminateStore_loop.simps) simp

lemma eliminateStore_loop_step:
  "b < length F \<Longrightarrow> m < length (F ! b) \<Longrightarrow> \<not> forwardsToLoad F b c m \<Longrightarrow>
   \<not> overwrittenBy F b c m \<Longrightarrow> \<not> stopsStoreScan E (F ! b ! m) \<Longrightarrow>
   eliminateStore_loop E b c m (F, st) = eliminateStore_loop E b c (Suc m) (F, st)"
  by (subst eliminateStore_loop.simps) simp

lemma eliminateStore_loop_induct [case_names stop self forward overwrite barrier step]:
  fixes P :: "nat \<Rightarrow> func \<times> stats \<Rightarrow> bool"
  assumes "\<And>m F st. \<not> (b < length F \<and> m < length (F ! b)) \<Longrightarrow> P m (F, st)"
    and "\<And>m F st. b < length F \<Longrightarrow> m < length (F ! b) \<Longrightarrow> forwardsToLoad F b c m \<Longrightarrow>
           getOperand (F ! b ! c) 0 = self (F ! b ! m) \<Longrightarrow> P m (F, st)"
    and "\<And>m F st. b < length F \<Longrightarrow> m < length (F ! b) \<Longrightarrow> forwardsToLoad F b c m \<Longrightarrow>
           getOperand (F ! b ! c) 0 \<noteq> self (F ! b ! m) \<Longrightarrow>
           P m (eraseFromParent b m
                  (replaceAllUsesWith (self (F ! b ! m)) (getOperand (F ! b ! c) 0) F),
                st\<lparr>CSEStore2Load := CSEStore2Load st + 1\<rparr>) \<Longrightarrow> P m (F, st)"
    and "\<And>m F st. b < length F \<Longrightarrow> m < length (F ! b) \<Longrightarrow> \<not> forwardsToLoad F b c m \<Longrightarrow>
           overwrittenBy F b c m \<Longrightarrow> P m (F, st)"
    and "\<And>m F st. b < length F \<Longrightarrow> m < length (F ! b) \<Longrightarrow> \<not> forwardsToLoad F b c m \<Longrightarrow>
           \<not> overwrittenBy F b c m \<Longrightarrow> stopsStoreScan E (F ! b ! m) \<Longrightarrow> P m (F, st)"
    and "\<And>m F st. b < length F \<Longrightarrow> m < length (F ! b) \<Longrightarrow> \<not> forwardsToLoad F b c m \<Longrightarrow>
           \<not> overwrittenBy F b c m \<Longrightarrow> \<not> stopsStoreScan E (F ! b ! m) \<Longrightarrow>
           P (Suc m) (F, st) \<Longrightarrow> P m (F, st)"
  shows "P m s"
proof -
  have "E' = E \<Longrightarrow> b' = b \<Longrightarrow> c' = c \<Longrightarrow> P m s" for E' b' c'
  proof (induction E' b' c' m s rule: eliminateStore_loop.induct)
    case (1 E' b' c' m F st)
    note eqs = \<open>E' = E\<close> \<open>b' = b\<close> \<open>c' = c\<close>
    show ?case
    proof (cases "b < length F \<and> m < length (F ! b)")
      case False
      then show ?thesis by (rule assms(1))
    next
      case inb: True
      show ?thesis
      proof (cases "forwardsToLoad F b c m")
        case fw: True
        show ?thesis
        proof (cases "getOperand (F ! b ! c) 0 = self (F ! b ! m)")
          case True
          with inb fw show ?thesis
            using assms(2) by blast
        next
          case False
          have "P m (eraseFromParent b m
                    (replaceAllUsesWith (self (F ! b ! m)) (getOperand (F ! b ! c) 0) F),
                  st\<lparr>CSEStore2Load := CSEStore2Load st + 1\<rparr>)"
            using "1.IH"(1) inb fw False eqs by blast
          with inb fw False show ?thesis
            using assms(3) by blast
        qed
      next
        case nf: False
        show ?thesis
        proof (cases "overwrittenBy F b c m")
          case True
          with nf inb show ?thesis
            using assms(4) by blast
        next
          case no: False
          show ?thesis
          proof (cases "stopsStoreScan E (F ! b ! m)")
            case True
            with nf no inb show ?thesis
              using assms(5) by blast
          next
            case False
            have "P (Suc m) (F, st)"
              using "1.IH"(2) nf no False inb eqs
              by blast
            with nf no False inb show ?thesis
              using assms(6) by blast
          qed
        qed
      qed
    qed
  qed
  then show ?thesis by blast
qed

lemma shrinks_eliminateStore_loop:
  "eliminateStore_loop E b c m s = Inr (s', fl) \<Longrightarrow> shrinks (fst s') (fst s)"
proof (induction m s rule: eliminateStore_loop_induct [where E = E and b = b and c = c])
  case (stop m F st)
  then show ?case by (auto simp: eliminateStore_loop_stop)
next
  case (self m F st)
  then show ?case by (simp add: eliminateStore_loop_self)
next
  case (forward m F st)
  then show ?case
    by (auto simp: eliminateStore_loop_forward intro: shrinks_erase_replace)
next
  case (overwrite m F st)
  then show ?case by (auto simp: eliminateStore_loop_overwrite)
next
  case (barrier m F st)
  then show ?case by (auto simp: eliminateStore_loop_barrier)
next
  case (step m F st)
  then show ?case by (simp add: eliminateStore_loop_step)
qed

lemma eliminateStore_loop_flag:
  "eliminateStore_loop E b c m s = Inr (s', True) \<Longrightarrow> c < m \<Longrightarrow>
   length (fst s' ! b) < length (fst s ! b)"
proof (induction m s rule: eliminateStore_loop_induct [where E = E and b = b and c = c])
  case (stop m F st)
  then show ?case by (simp add: eliminateStore_loop_stop)
next
  case (self m F st)
  then show ?case by (simp add: eliminateStore_loop_self)
next
  case (forward m F st)
  then show ?case by (simp add: eliminateStore_loop_forward)
next
  case (overwrite m F st)
  then show ?case by (auto simp: eliminateStore_loop_overwrite)
next
  case (barrier m F st)
  then show ?case by (simp add: eliminateStore_loop_barrier)
next
  case (step m F st)
  then show ?case by (simp add: eliminateStore_loop_step)
qed

section \<open>The driver\<close>

text \<open>
  \<open>cse_step E b i s\<close> is one pass through the body of the innermost loop of
  \<^verbatim>\<open>CommonSubexpressionElimination\<close>, with the iterator at index \<open>i\<close> of block \<open>b\<close>. It
  returns the new state and the new index of the iterator: where the source steps the
  iterator and then erases the instruction it stood on, the index stays the same.
\<close>

definition cse_step ::
  "services \<Rightarrow> nat \<Rightarrow> nat \<Rightarrow> func \<times> stats \<Rightarrow> error + (func \<times> stats) \<times> nat" where
  "cse_step E b i s =
     (let F = fst s; st = snd s; ExtractedI = F ! b ! i in
      if isDead F ExtractedI
      then Inr ((eraseFromParent b i F, st\<lparr>CSEDead := CSEDead st + 1\<rparr>), i)
      else
        (case SimplifyInstruction E F ExtractedI of
           Some simplyInstr \<Rightarrow>
             Inr ((eraseFromParent b i (replaceAllUsesWith (self ExtractedI) simplyInstr F),
                   st\<lparr>CSESimplify := CSESimplify st + 1\<rparr>), i)
         | None \<Rightarrow>
             (case (if isValidForCSE ExtractedI
                    then domBBScan E b i (sameBBScan b i s) else Inr s) of
                Inl e \<Rightarrow> Inl e
              | Inr s1 \<Rightarrow>
                  (let s2 = (if opcode ExtractedI = MemoryOp Load
                             then eliminateLoad b i s1 else s1)
                   in if opcode ExtractedI = MemoryOp Store
                      then (case eliminateStore E b i s2 of
                              Inl e \<Rightarrow> Inl e
                            | Inr (s3, inc_flag) \<Rightarrow> Inr (s3, if inc_flag then i else Suc i))
                      else Inr (s2, Suc i)))))"

lemma shrinks_sameBBScan: "shrinks (fst (sameBBScan b c s)) (fst s)"
  by (simp add: sameBBScan_def shrinks_sameBBScan_loop)

lemma shrinks_domBBScan: "domBBScan E b c s = Inr s' \<Longrightarrow> shrinks (fst s') (fst s)"
  by (auto simp: domBBScan_def shrinks_domBBScan_children split: option.splits)

lemma shrinks_eliminateLoad: "shrinks (fst (eliminateLoad b c s)) (fst s)"
  by (simp add: eliminateLoad_def shrinks_eliminateLoad_loop)

lemma shrinks_eliminateStore:
  "eliminateStore E b c s = Inr (s', fl) \<Longrightarrow> shrinks (fst s') (fst s)"
  unfolding eliminateStore_def by (rule shrinks_eliminateStore_loop)

lemma eliminateStore_flag:
  "eliminateStore E b c s = Inr (s', True) \<Longrightarrow> length (fst s' ! b) < length (fst s ! b)"
  unfolding eliminateStore_def by (erule eliminateStore_loop_flag) simp

lemma length_erased [simp]:
  "b < length F \<Longrightarrow> k < length (F ! b) \<Longrightarrow>
   length (eraseFromParent b k F ! b) = length (F ! b) - 1"
  by simp

lemma cse_step_Inr:
  assumes "cse_step E b i (F, st) = Inr (s', i')"
    and "b < length F" and "i < length (F ! b)"
  shows "shrinks (fst s') F \<and>
         (i' = Suc i \<or> i' = i \<and> length (fst s' ! b) < length (F ! b))"
proof (cases "isDead F (F ! b ! i)")
  case True
  with assms(1) have "fst s' = eraseFromParent b i F" "i' = i"
    by (auto simp: cse_step_def)
  with assms(2,3) show ?thesis by simp
next
  case nd: False
  show ?thesis
  proof (cases "SimplifyInstruction E F (F ! b ! i)")
    case (Some v)
    with nd assms(1) have
      "fst s' = eraseFromParent b i (replaceAllUsesWith (self (F ! b ! i)) v F)" "i' = i"
      by (auto simp: cse_step_def)
    with assms(2,3) show ?thesis
      by simp
  next
    case None
    let ?I = "F ! b ! i"
    from assms(1) nd None obtain s1 where
      s1: "(if isValidForCSE ?I then domBBScan E b i (sameBBScan b i (F, st)) else Inr (F, st)) = Inr s1"
      by (auto simp: cse_step_def Let_def split: sum.splits)
    have sh1: "shrinks (fst s1) F"
    proof (cases "isValidForCSE ?I")
      case True
      with s1 have "shrinks (fst s1) (fst (sameBBScan b i (F, st)))"
        by (simp add: shrinks_domBBScan)
      then show ?thesis
        using shrinks_sameBBScan [of b i "(F, st)"] by (auto intro: shrinks_trans)
    next
      case False
      with s1 show ?thesis by auto
    qed
    define s2 where "s2 = (if opcode ?I = MemoryOp Load then eliminateLoad b i s1 else s1)"
    have sh2: "shrinks (fst s2) F"
      using sh1 shrinks_eliminateLoad [of b i s1] by (auto simp: s2_def intro: shrinks_trans)
    show ?thesis
    proof (cases "opcode ?I = MemoryOp Store")
      case False
      with assms(1) nd None s1 have "s' = s2" "i' = Suc i"
        by (auto simp: cse_step_def Let_def s2_def split: sum.splits)
      with sh2 show ?thesis by simp
    next
      case True
      with assms(1) nd None s1 obtain fl where
        r: "eliminateStore E b i s2 = Inr (s', fl)" "i' = (if fl then i else Suc i)"
        by (auto simp: cse_step_def Let_def s2_def split: sum.splits prod.splits)
      have sh3: "shrinks (fst s') F"
        using shrinks_eliminateStore [OF r(1)] sh2 by (rule shrinks_trans)
      show ?thesis
      proof (cases fl)
        case False
        with r sh3 show ?thesis by simp
      next
        case True
        with r(1) have "length (fst s' ! b) < length (fst s2 ! b)"
          by (simp add: eliminateStore_flag)
        moreover have "length (fst s2 ! b) \<le> length (F ! b)"
          using sh2 assms(2) by (rule shrinks_nth)
        ultimately show ?thesis
          using True r(2) sh3 by simp
      qed
    qed
  qed
qed

text \<open>
  The loop over the instructions of block \<open>b\<close>, the loop over the blocks of a function
  (their number does not change), and the loop over the functions of the module.
\<close>

function cse_block :: "services \<Rightarrow> nat \<Rightarrow> nat \<Rightarrow> func \<times> stats \<Rightarrow> error + func \<times> stats" where
  "cse_block E b i (F, st) =
     (if b < length F \<and> i < length (F ! b) then
        (case cse_step E b i (F, st) of
           Inl e \<Rightarrow> Inl e
         | Inr (s', i') \<Rightarrow> cse_block E b i' s')
      else Inr (F, st))"
  apply pat_completeness
  apply (elim Pair_inject)
  apply hypsubst
  apply (rule refl)
  done
termination
proof (relation "measure (\<lambda>(E, b, i, F, st). length (F ! b) - i)")
  show "wf (measure (\<lambda>(E, b, i, F, st). length (F ! b) - i))"
    by simp
next
  fix E b i F st x2 x y
  assume inb: "b < length F \<and> i < length (F ! b)"
    and "cse_step E b i (F, st) = Inr x2" and "(x, y) = x2"
  then have "cse_step E b i (F, st) = Inr (x, y)"
    by simp
  from cse_step_Inr [OF this] inb
  have "shrinks (fst x) F"
    and "y = Suc i \<or> y = i \<and> length (fst x ! b) < length (F ! b)"
    by simp_all
  moreover from this(1) inb have "length (fst x ! b) \<le> length (F ! b)"
    by (simp add: shrinks_nth)
  ultimately have "length (fst x ! b) - y < length (F ! b) - i"
    using inb by arith
  then show "((E, b, y, x), E, b, i, F, st) \<in> measure (\<lambda>(E, b, i, F, st). length (F ! b) - i)"
    by (cases x) simp
qed

declare cse_block.simps [simp del]

fun cse_blocks :: "services \<Rightarrow> nat list \<Rightarrow> func \<times> stats \<Rightarrow> error + func \<times> stats" where
  "cse_blocks E [] s = Inr s"
| "cse_blocks E (b # bs) s =
     (case cse_block E b 0 s of Inl e \<Rightarrow> Inl e | Inr s' \<Rightarrow> cse_blocks E bs s')"

definition cse_function :: "services \<Rightarrow> func \<Rightarrow> stats \<Rightarrow> error + func \<times> stats" where
  "cse_function E F st = cse_blocks E [0..<length F] (F, st)"

fun CommonSubexpressionElimination ::
  "services \<Rightarrow> module \<Rightarrow> stats \<Rightarrow> error + module \<times> stats" where
  "CommonSubexpressionElimination E [] st = Inr ([], st)"
| "CommonSubexpressionElimination E (F # M) st =
     (case cse_function E F st of
        Inl e \<Rightarrow> Inl e
      | Inr (F', st') \<Rightarrow>
          (case CommonSubexpressionElimination E M st' of
             Inl e \<Rightarrow> Inl e
           | Inr (M', st'') \<Rightarrow> Inr (F' # M', st'')))"


section \<open>summarize and main\<close>

fun summarize_block :: "block \<Rightarrow> stats \<Rightarrow> stats" where
  "summarize_block [] st = st"
| "summarize_block (I # k) st =
     summarize_block k
       (let st1 = st\<lparr>nInstructions := nInstructions st + 1\<rparr>
        in if opcode I = MemoryOp Load then st1\<lparr>nLoads := nLoads st1 + 1\<rparr>
           else if opcode I = MemoryOp Store then st1\<lparr>nStores := nStores st1 + 1\<rparr>
           else st1)"

fun summarize_function :: "func \<Rightarrow> stats \<Rightarrow> stats" where
  "summarize_function [] st = st"
| "summarize_function (j # js) st = summarize_function js (summarize_block j st)"

fun summarize :: "module \<Rightarrow> stats \<Rightarrow> stats" where
  "summarize [] st = st"
| "summarize (i # M) st =
     summarize M
       (summarize_function i
          (if i \<noteq> [] then st\<lparr>nFunctions := nFunctions st + 1\<rparr> else st))"

text \<open>
  \<^verbatim>\<open>main\<close>, as far as its exit status and its writes to standard error go. The parser's
  answer, the promotion pass and the verifier are inputs: \<open>parsed = None\<close> is the null
  module of a failed parse; \<open>verifies M\<close> tells whether the verifier pass accepts \<open>M\<close> (it
  aborts the process otherwise). The statistics start at zero. The files written
  (the statistics file and the bitcode) are left out.
\<close>

record options =
  Mem2Reg :: bool
  NoCSE :: bool
  Verbose :: bool
  NoCheck :: bool

datatype stderr_output = Diagnostic | Statistics stats

datatype outcome = Return int | Aborted | Crashed error

definition no_stats :: stats where
  "no_stats = \<lparr>CSEDead = 0, CSEElim = 0, CSESimplify = 0, CSELdElim = 0,
     CSEStore2Load = 0, CSEStElim = 0, nFunctions = 0, nInstructions = 0,
     nLoads = 0, nStores = 0\<rparr>"

definition main ::
  "services \<Rightarrow> (module \<Rightarrow> module) \<Rightarrow> (module \<Rightarrow> bool) \<Rightarrow> options \<Rightarrow> module option \<Rightarrow>
   stderr_output list \<times> outcome" where
  "main E promote verifies opts parsed =
     (case parsed of
        None \<Rightarrow> ([Diagnostic], Return 1)
      | Some M \<Rightarrow>
          (let M1 = (if Mem2Reg opts then promote M else M) in
           case (if \<not> NoCSE opts then CommonSubexpressionElimination E M1 no_stats
                 else Inr (M1, no_stats)) of
             Inl e \<Rightarrow> ([], Crashed e)
           | Inr (M2, st) \<Rightarrow>
               (let st' = summarize M2 st;
                    err = (if Verbose opts then [Statistics st'] else [])
                in if \<not> NoCheck opts \<and> \<not> verifies M2 then (err, Aborted)
                   else (err, Return 0))))"


section \<open>The loops, case by case\<close>

lemma domBBScan_block_stop:
  "\<not> (t < length F \<and> p < length (F ! t)) \<Longrightarrow> domBBScan_block b c t p (F, st) = (F, st)"
  by (subst domBBScan_block.simps) (rule if_not_P)

lemma domBBScan_block_erase:
  "t < length F \<Longrightarrow> p < length (F ! t) \<Longrightarrow> isIdenticalTo (F ! t ! p) (F ! b ! c) \<Longrightarrow>
   domBBScan_block b c t p (F, st) =
   domBBScan_block b c t p
     (eraseFromParent t p (replaceAllUsesWith (self (F ! t ! p)) (self (F ! b ! c)) F),
      st\<lparr>CSEElim := CSEElim st + 1\<rparr>)"
  by (subst domBBScan_block.simps) simp

lemma domBBScan_block_step:
  "t < length F \<Longrightarrow> p < length (F ! t) \<Longrightarrow> \<not> isIdenticalTo (F ! t ! p) (F ! b ! c) \<Longrightarrow>
   domBBScan_block b c t p (F, st) = domBBScan_block b c t (Suc p) (F, st)"
  by (subst domBBScan_block.simps) simp

lemma domBBScan_block_induct [case_names stop erase step]:
  fixes P :: "nat \<Rightarrow> func \<times> stats \<Rightarrow> bool"
  assumes "\<And>p F st. \<not> (t < length F \<and> p < length (F ! t)) \<Longrightarrow> P p (F, st)"
    and "\<And>p F st. t < length F \<Longrightarrow> p < length (F ! t) \<Longrightarrow>
           isIdenticalTo (F ! t ! p) (F ! b ! c) \<Longrightarrow>
           P p (eraseFromParent t p
                  (replaceAllUsesWith (self (F ! t ! p)) (self (F ! b ! c)) F),
                st\<lparr>CSEElim := CSEElim st + 1\<rparr>) \<Longrightarrow> P p (F, st)"
    and "\<And>p F st. t < length F \<Longrightarrow> p < length (F ! t) \<Longrightarrow>
           \<not> isIdenticalTo (F ! t ! p) (F ! b ! c) \<Longrightarrow> P (Suc p) (F, st) \<Longrightarrow> P p (F, st)"
  shows "P p s"
proof -
  have "b' = b \<Longrightarrow> c' = c \<Longrightarrow> t' = t \<Longrightarrow> P p s" for b' c' t'
  proof (induction b' c' t' p s rule: domBBScan_block.induct)
    case (1 b' c' t' p F st)
    note eqs = \<open>b' = b\<close> \<open>c' = c\<close> \<open>t' = t\<close>
    show ?case
    proof (cases "t < length F \<and> p < length (F ! t)")
      case False
      then show ?thesis by (rule assms(1))
    next
      case inb: True
      show ?thesis
      proof (cases "isIdenticalTo (F ! t ! p) (F ! b ! c)")
        case True
        have "P p (eraseFromParent t p
                  (replaceAllUsesWith (self (F ! t ! p)) (self (F ! b ! c)) F),
                st\<lparr>CSEElim := CSEElim st + 1\<rparr>)"
          using "1.IH"(1) inb True eqs by blast
        with inb True show ?thesis
          using assms(2) by blast
      next
        case False
        have "P (Suc p) (F, st)"
          using "1.IH"(2) inb False eqs by blast
        with inb False show ?thesis
          using assms(3) by blast
      qed
    qed
  qed
  then show ?thesis by blast
qed

lemma sameBBScan_loop_stop:
  "\<not> (b < length F \<and> k < length (F ! b)) \<Longrightarrow> sameBBScan_loop b c k (F, st) = (F, st)"
  by (subst sameBBScan_loop.simps) (rule if_not_P)

lemma sameBBScan_loop_eq: "sameBBScan_loop b c k s = domBBScan_block b c b k s"
proof (induction k s rule: domBBScan_block_induct [where b = b and c = c and t = b])
  case (stop p F st)
  show ?case
    by (simp only: sameBBScan_loop_stop [OF stop] domBBScan_block_stop [OF stop])
next
  case (erase p F st)
  then show ?case
    by (subst sameBBScan_loop.simps) (simp add: domBBScan_block_erase)
next
  case (step p F st)
  then show ?case
    by (subst sameBBScan_loop.simps) (simp add: domBBScan_block_step)
qed

lemma eliminateLoad_loop_stop:
  "\<not> (b < length F \<and> k < length (F ! b)) \<Longrightarrow> eliminateLoad_loop b c k (F, st) = (F, st)"
  by (subst eliminateLoad_loop.simps) (rule if_not_P)

lemma eliminateLoad_loop_erase:
  "b < length F \<Longrightarrow> k < length (F ! b) \<Longrightarrow> redundantLoad F b c k \<Longrightarrow>
   eliminateLoad_loop b c k (F, st) =
   eliminateLoad_loop b c k
     (eraseFromParent b k (replaceAllUsesWith (self (F ! b ! k)) (self (F ! b ! c)) F),
      st\<lparr>CSELdElim := CSELdElim st + 1\<rparr>)"
  by (subst eliminateLoad_loop.simps) simp

lemma eliminateLoad_loop_store:
  "b < length F \<Longrightarrow> k < length (F ! b) \<Longrightarrow> \<not> redundantLoad F b c k \<Longrightarrow>
   opcode (F ! b ! k) = MemoryOp Store \<Longrightarrow>
   eliminateLoad_loop b c k (F, st) = (F, st)"
  by (subst eliminateLoad_loop.simps) simp

lemma eliminateLoad_loop_step:
  "b < length F \<Longrightarrow> k < length (F ! b) \<Longrightarrow> \<not> redundantLoad F b c k \<Longrightarrow>
   opcode (F ! b ! k) \<noteq> MemoryOp Store \<Longrightarrow>
   eliminateLoad_loop b c k (F, st) = eliminateLoad_loop b c (Suc k) (F, st)"
  by (subst eliminateLoad_loop.simps) simp

lemma eliminateLoad_loop_induct [case_names stop erase store step]:
  fixes P :: "nat \<Rightarrow> func \<times> stats \<Rightarrow> bool"
  assumes "\<And>k F st. \<not> (b < length F \<and> k < length (F ! b)) \<Longrightarrow> P k (F, st)"
    and "\<And>k F st. b < length F \<Longrightarrow> k < length (F ! b) \<Longrightarrow> redundantLoad F b c k \<Longrightarrow>
           P k (eraseFromParent b k
                  (replaceAllUsesWith (self (F ! b ! k)) (self (F ! b ! c)) F),
                st\<lparr>CSELdElim := CSELdElim st + 1\<rparr>) \<Longrightarrow> P k (F, st)"
    and "\<And>k F st. b < length F \<Longrightarrow> k < length (F ! b) \<Longrightarrow> \<not> redundantLoad F b c k \<Longrightarrow>
           opcode (F ! b ! k) = MemoryOp Store \<Longrightarrow> P k (F, st)"
    and "\<And>k F st. b < length F \<Longrightarrow> k < length (F ! b) \<Longrightarrow> \<not> redundantLoad F b c k \<Longrightarrow>
           opcode (F ! b ! k) \<noteq> MemoryOp Store \<Longrightarrow> P (Suc k) (F, st) \<Longrightarrow> P k (F, st)"
  shows "P k s"
proof -
  have "b' = b \<Longrightarrow> c' = c \<Longrightarrow> P k s" for b' c'
  proof (induction b' c' k s rule: eliminateLoad_loop.induct)
    case (1 b' c' k F st)
    note eqs = \<open>b' = b\<close> \<open>c' = c\<close>
    show ?case
    proof (cases "b < length F \<and> k < length (F ! b)")
      case False
      then show ?thesis by (rule assms(1))
    next
      case inb: True
      show ?thesis
      proof (cases "redundantLoad F b c k")
        case True
        have "P k (eraseFromParent b k
                  (replaceAllUsesWith (self (F ! b ! k)) (self (F ! b ! c)) F),
                st\<lparr>CSELdElim := CSELdElim st + 1\<rparr>)"
          using "1.IH"(1) inb True eqs by blast
        with inb True show ?thesis
          using assms(2) by blast
      next
        case nr: False
        show ?thesis
        proof (cases "opcode (F ! b ! k) = MemoryOp Store")
          case True
          with inb nr show ?thesis
            using assms(3) by blast
        next
          case False
          have "P (Suc k) (F, st)"
            using "1.IH"(2) inb nr False eqs by blast
          with inb nr False show ?thesis
            using assms(4) by blast
        qed
      qed
    qed
  qed
  then show ?thesis by blast
qed

section \<open>Every increment pairs with one erased instruction\<close>

definition instr_count :: "func \<Rightarrow> nat" where
  "instr_count F = sum_list (map length F)"

lemma instr_count_replaceAllUsesWith [simp]:
  "instr_count (replaceAllUsesWith old new F) = instr_count F"
  by (simp add: instr_count_def replaceAllUsesWith_def comp_def)

lemma instr_count_eraseFromParent:
  assumes "b < length F" and "k < length (F ! b)"
  shows "Suc (instr_count (eraseFromParent b k F)) = instr_count F"
proof -
  let ?L = "map length F"
  have "instr_count (eraseFromParent b k F) = sum_list (?L[b := length (F ! b) - 1])"
    using assms by (simp add: instr_count_def eraseFromParent_def map_update)
  also have "\<dots> = sum_list ?L + (length (F ! b) - 1) - ?L ! b"
    using assms(1) by (simp add: sum_list_update)
  finally have "instr_count (eraseFromParent b k F) =
      instr_count F + (length (F ! b) - 1) - length (F ! b)"
    using assms(1) by (simp add: instr_count_def)
  moreover have "length (F ! b) \<le> instr_count F"
    unfolding instr_count_def using assms(1) by (intro member_le_sum_list) simp_all
  ultimately show ?thesis
    using assms(2) by arith
qed

lemma shrinks_instr_count: "shrinks F' F \<Longrightarrow> instr_count F' \<le> instr_count F"
  unfolding shrinks_def instr_count_def
  by (induction F' F rule: list_all2_induct) auto

lemma shrinks_erased_count:
  assumes "shrinks F' (eraseFromParent b k (replaceAllUsesWith old new F))"
    and "b < length F" and "k < length (F ! b)"
  shows "Suc (instr_count F - Suc (instr_count F')) = instr_count F - instr_count F'"
proof -
  let ?G = "eraseFromParent b k (replaceAllUsesWith old new F)"
  have "Suc (instr_count ?G) = instr_count F"
    using instr_count_eraseFromParent [of b "replaceAllUsesWith old new F" k] assms(2,3)
    by simp
  moreover have "instr_count F' \<le> instr_count ?G"
    using assms(1) by (rule shrinks_instr_count)
  ultimately show ?thesis by arith
qed

lemma domBBScan_block_account:
  "snd (domBBScan_block b c t p (F, st)) =
   st\<lparr>CSEElim := CSEElim st +
        (instr_count F - instr_count (fst (domBBScan_block b c t p (F, st))))\<rparr>"
proof (induction p "(F, st)" arbitrary: F st
    rule: domBBScan_block_induct [where b = b and c = c and t = t])
  case (stop p F st)
  then show ?case by (simp add: domBBScan_block_stop)
next
  case (erase p F st)
  let ?G = "eraseFromParent t p (replaceAllUsesWith (self (F ! t ! p)) (self (F ! b ! c)) F)"
  let ?st = "st\<lparr>CSEElim := CSEElim st + 1\<rparr>"
  have "Suc (instr_count ?G) = instr_count F"
    using instr_count_eraseFromParent [of t "replaceAllUsesWith (self (F ! t ! p)) (self (F ! b ! c)) F" p]
      erase.hyps(1,2) by simp
  moreover have "instr_count (fst (domBBScan_block b c t p (?G, ?st))) \<le> instr_count ?G"
    using shrinks_domBBScan_block [of b c t p "(?G, ?st)"] by (simp add: shrinks_instr_count)
  ultimately have "Suc (instr_count ?G - instr_count (fst (domBBScan_block b c t p (?G, ?st)))) =
      instr_count F - instr_count (fst (domBBScan_block b c t p (?G, ?st)))"
    by arith
  then show ?case
    using erase.hyps(4) erase.hyps(1,2,3)
    by (simp add: domBBScan_block_erase)
next
  case (step p F st)
  then show ?case by (simp add: domBBScan_block_step)
qed

lemma sameBBScan_account:
  "snd (sameBBScan b c (F, st)) =
   st\<lparr>CSEElim := CSEElim st + (instr_count F - instr_count (fst (sameBBScan b c (F, st))))\<rparr>"
  unfolding sameBBScan_def sameBBScan_loop_eq by (rule domBBScan_block_account)

lemma domBBScan_children_account:
  "snd (domBBScan_children b c ts (F, st)) =
   st\<lparr>CSEElim := CSEElim st +
        (instr_count F - instr_count (fst (domBBScan_children b c ts (F, st))))\<rparr>"
proof (induction ts arbitrary: F st)
  case Nil
  show ?case by simp
next
  case (Cons t ts)
  obtain F1 st1 where r1: "domBBScan_block b c t 0 (F, st) = (F1, st1)"
    by (cases "domBBScan_block b c t 0 (F, st)")
  obtain F2 st2 where r2: "domBBScan_children b c ts (F1, st1) = (F2, st2)"
    by (cases "domBBScan_children b c ts (F1, st1)")
  have a1: "st1 = st\<lparr>CSEElim := CSEElim st + (instr_count F - instr_count F1)\<rparr>"
    using domBBScan_block_account [of b c t 0 F st] r1 by simp
  have a2: "st2 = st1\<lparr>CSEElim := CSEElim st1 + (instr_count F1 - instr_count F2)\<rparr>"
    using Cons [of F1 st1] r2 by simp
  have "instr_count F1 \<le> instr_count F"
    using shrinks_domBBScan_block [of b c t 0 "(F, st)"] r1 by (simp add: shrinks_instr_count)
  moreover have "instr_count F2 \<le> instr_count F1"
    using shrinks_domBBScan_children [of b c ts "(F1, st1)"] r2
    by (simp add: shrinks_instr_count)
  ultimately have "(instr_count F - instr_count F1) + (instr_count F1 - instr_count F2) =
      instr_count F - instr_count F2"
    by arith
  with a1 a2 have "st2 = st\<lparr>CSEElim := CSEElim st + (instr_count F - instr_count F2)\<rparr>"
    by simp
  moreover have "domBBScan_children b c (t # ts) (F, st) = (F2, st2)"
    by (simp add: r1 r2)
  ultimately show ?case
    by simp
qed

lemma eliminateLoad_loop_account:
  "snd (eliminateLoad_loop b c k (F, st)) =
   st\<lparr>CSELdElim := CSELdElim st +
        (instr_count F - instr_count (fst (eliminateLoad_loop b c k (F, st))))\<rparr>"
proof (induction k "(F, st)" arbitrary: F st
    rule: eliminateLoad_loop_induct [where b = b and c = c])
  case (stop k F st)
  then show ?case by (simp add: eliminateLoad_loop_stop)
next
  case (erase k F st)
  let ?G = "eraseFromParent b k (replaceAllUsesWith (self (F ! b ! k)) (self (F ! b ! c)) F)"
  let ?st = "st\<lparr>CSELdElim := CSELdElim st + 1\<rparr>"
  have "Suc (instr_count ?G) = instr_count F"
    using instr_count_eraseFromParent [of b "replaceAllUsesWith (self (F ! b ! k)) (self (F ! b ! c)) F" k]
      erase.hyps(1,2) by simp
  moreover have "instr_count (fst (eliminateLoad_loop b c k (?G, ?st))) \<le> instr_count ?G"
    using shrinks_eliminateLoad_loop [of b c k "(?G, ?st)"] by (simp add: shrinks_instr_count)
  ultimately have "Suc (instr_count ?G - instr_count (fst (eliminateLoad_loop b c k (?G, ?st)))) =
      instr_count F - instr_count (fst (eliminateLoad_loop b c k (?G, ?st)))"
    by arith
  then show ?case
    using erase.hyps(4) erase.hyps(1,2,3)
    by (simp add: eliminateLoad_loop_erase)
next
  case (store k F st)
  then show ?case by (simp add: eliminateLoad_loop_store)
next
  case (step k F st)
  then show ?case by (simp add: eliminateLoad_loop_step)
qed

lemma eliminateLoad_account:
  "snd (eliminateLoad b c (F, st)) =
   st\<lparr>CSELdElim := CSELdElim st +
        (instr_count F - instr_count (fst (eliminateLoad b c (F, st))))\<rparr>"
  unfolding eliminateLoad_def by (rule eliminateLoad_loop_account)

text \<open>
  \<^verbatim>\<open>eliminateStore\<close> bumps \<open>CSEStElim\<close> once when it sets the flag, and \<open>CSEStore2Load\<close> once
  for every other instruction it erases.
\<close>

lemma eliminateStore_loop_flag_count:
  "eliminateStore_loop E b c m (F, st) = Inr (s', True) \<Longrightarrow> c < m \<Longrightarrow>
   instr_count (fst s') < instr_count F"
proof (induction m "(F, st)" arbitrary: F st
    rule: eliminateStore_loop_induct [where E = E and b = b and c = c])
  case (stop m F st)
  then show ?case by (simp add: eliminateStore_loop_stop)
next
  case (self m F st)
  then show ?case by (simp add: eliminateStore_loop_self)
next
  case (forward m F st)
  let ?G = "eraseFromParent b m
      (replaceAllUsesWith (self (F ! b ! m)) (getOperand (F ! b ! c) 0) F)"
  have "Suc (instr_count ?G) = instr_count F"
    using instr_count_eraseFromParent
      [of b "replaceAllUsesWith (self (F ! b ! m)) (getOperand (F ! b ! c) 0) F" m]
      forward.hyps(1,2) by simp
  with forward show ?case
    by (simp add: eliminateStore_loop_forward)
next
  case (overwrite m F st)
  then show ?case
    using instr_count_eraseFromParent [of b F c]
    by (auto simp: eliminateStore_loop_overwrite)
next
  case (barrier m F st)
  then show ?case by (simp add: eliminateStore_loop_barrier)
next
  case (step m F st)
  then show ?case by (simp add: eliminateStore_loop_step)
qed

lemma eliminateStore_loop_account:
  "eliminateStore_loop E b c m (F, st) = Inr (s', fl) \<Longrightarrow> c < m \<Longrightarrow>
   snd s' =
   st\<lparr>CSEStore2Load := CSEStore2Load st +
        (instr_count F - instr_count (fst s') - (if fl then 1 else 0)),
      CSEStElim := CSEStElim st + (if fl then 1 else 0)\<rparr>"
proof (induction m "(F, st)" arbitrary: F st
    rule: eliminateStore_loop_induct [where E = E and b = b and c = c])
  case (stop m F st)
  then show ?case by (auto simp: eliminateStore_loop_stop)
next
  case (self m F st)
  then show ?case by (simp add: eliminateStore_loop_self)
next
  case (forward m F st)
  let ?G = "eraseFromParent b m
      (replaceAllUsesWith (self (F ! b ! m)) (getOperand (F ! b ! c) 0) F)"
  let ?st = "st\<lparr>CSEStore2Load := CSEStore2Load st + 1\<rparr>"
  let ?fl = "if fl then 1 else 0 :: nat"
  have eq: "eliminateStore_loop E b c m (?G, ?st) = Inr (s', fl)"
    using forward.prems(1) forward.hyps(1,2,3,4) by (simp add: eliminateStore_loop_forward)
  have cG: "Suc (instr_count ?G) = instr_count F"
    using instr_count_eraseFromParent
      [of b "replaceAllUsesWith (self (F ! b ! m)) (getOperand (F ! b ! c) 0) F" m]
      forward.hyps(1,2) by simp
  have le: "instr_count (fst s') + ?fl \<le> instr_count ?G"
  proof (cases fl)
    case True
    then show ?thesis
      using eliminateStore_loop_flag_count [of E b c m ?G ?st s'] eq forward.prems(2) by simp
  next
    case False
    then show ?thesis
      using shrinks_eliminateStore_loop [OF eq]
      by (simp add: shrinks_instr_count)
  qed
  have "Suc (instr_count ?G - instr_count (fst s') - ?fl) =
      instr_count F - instr_count (fst s') - ?fl"
    using cG le by arith
  then show ?case
    using forward.hyps(5) [OF eq forward.prems(2)] by simp
next
  case (overwrite m F st)
  then show ?case
    using instr_count_eraseFromParent [of b F c]
    by (auto simp: eliminateStore_loop_overwrite)
next
  case (barrier m F st)
  then show ?case by (auto simp: eliminateStore_loop_barrier)
next
  case (step m F st)
  then show ?case by (simp add: eliminateStore_loop_step)
qed

definition cse_total :: "stats \<Rightarrow> nat" where
  "cse_total st =
     CSEDead st + CSESimplify st + CSEElim st + CSELdElim st + CSEStore2Load st + CSEStElim st"

definition weight :: "func \<times> stats \<Rightarrow> nat" where
  "weight s = instr_count (fst s) + cse_total (snd s)"

lemma sameBBScan_snd:
  "snd (sameBBScan b c s) =
   (snd s)\<lparr>CSEElim := CSEElim (snd s) +
        (instr_count (fst s) - instr_count (fst (sameBBScan b c s)))\<rparr>"
  using sameBBScan_account [of b c "fst s" "snd s"] by simp

lemma domBBScan_snd:
  assumes "domBBScan E b c s = Inr s'"
  shows "snd s' =
   (snd s)\<lparr>CSEElim := CSEElim (snd s) + (instr_count (fst s) - instr_count (fst s'))\<rparr>"
  using assms domBBScan_children_account [of b c _ "fst s" "snd s"]
  by (auto simp: domBBScan_def split: option.splits)

lemma eliminateLoad_snd:
  "snd (eliminateLoad b c s) =
   (snd s)\<lparr>CSELdElim := CSELdElim (snd s) +
        (instr_count (fst s) - instr_count (fst (eliminateLoad b c s)))\<rparr>"
  using eliminateLoad_account [of b c "fst s" "snd s"] by simp

lemma eliminateStore_snd:
  "eliminateStore E b c s = Inr (s', fl) \<Longrightarrow>
   snd s' =
   (snd s)\<lparr>CSEStore2Load := CSEStore2Load (snd s) +
        (instr_count (fst s) - instr_count (fst s') - (if fl then 1 else 0)),
      CSEStElim := CSEStElim (snd s) + (if fl then 1 else 0)\<rparr>"
  using eliminateStore_loop_account [of E b c "Suc c" "fst s" "snd s" s' fl]
  by (simp add: eliminateStore_def)

lemma weight_sameBBScan: "weight (sameBBScan b c s) = weight s"
proof -
  have "instr_count (fst (sameBBScan b c s)) \<le> instr_count (fst s)"
    using shrinks_sameBBScan [of b c s] by (rule shrinks_instr_count)
  then show ?thesis
    unfolding weight_def by (subst sameBBScan_snd) (simp add: cse_total_def)
qed

lemma weight_domBBScan:
  assumes "domBBScan E b c s = Inr s'"
  shows "weight s' = weight s"
proof -
  have "instr_count (fst s') \<le> instr_count (fst s)"
    using shrinks_domBBScan [OF assms] by (rule shrinks_instr_count)
  then show ?thesis
    unfolding weight_def by (subst domBBScan_snd [OF assms]) (simp add: cse_total_def)
qed

lemma weight_eliminateLoad: "weight (eliminateLoad b c s) = weight s"
proof -
  have "instr_count (fst (eliminateLoad b c s)) \<le> instr_count (fst s)"
    using shrinks_eliminateLoad [of b c s] by (rule shrinks_instr_count)
  then show ?thesis
    unfolding weight_def by (subst eliminateLoad_snd) (simp add: cse_total_def)
qed

lemma weight_eliminateStore:
  assumes "eliminateStore E b c s = Inr (s', fl)"
  shows "weight s' = weight s"
proof -
  have "instr_count (fst s') + (if fl then 1 else 0) \<le> instr_count (fst s)"
  proof (cases fl)
    case True
    then show ?thesis
      using eliminateStore_loop_flag_count [of E b c "Suc c" "fst s" "snd s" s'] assms
      by (simp add: eliminateStore_def)
  next
    case False
    then show ?thesis
      using shrinks_eliminateStore [OF assms] by (simp add: shrinks_instr_count)
  qed
  then show ?thesis
    unfolding weight_def
    by (subst eliminateStore_snd [OF assms]) (simp add: cse_total_def)
qed

text \<open>What one step of the driver's loop does, by the branch it takes.\<close>

lemma cse_step_cases [consumes 1, case_names dead simplified kept]:
  assumes "cse_step E b i (F, st) = Inr (s', i')"
  obtains
    (dead) "isDead F (F ! b ! i)"
      "s' = (eraseFromParent b i F, st\<lparr>CSEDead := CSEDead st + 1\<rparr>)" "i' = i"
  | (simplified) v where "\<not> isDead F (F ! b ! i)"
      "SimplifyInstruction E F (F ! b ! i) = Some v"
      "s' = (eraseFromParent b i (replaceAllUsesWith (self (F ! b ! i)) v F),
             st\<lparr>CSESimplify := CSESimplify st + 1\<rparr>)" "i' = i"
  | (kept) s1 s2 where "\<not> isDead F (F ! b ! i)"
      "SimplifyInstruction E F (F ! b ! i) = None"
      "(if isValidForCSE (F ! b ! i)
        then domBBScan E b i (sameBBScan b i (F, st)) else Inr (F, st)) = Inr s1"
      "s2 = (if opcode (F ! b ! i) = MemoryOp Load then eliminateLoad b i s1 else s1)"
      "opcode (F ! b ! i) \<noteq> MemoryOp Store \<and> s' = s2 \<and> i' = Suc i \<or>
       opcode (F ! b ! i) = MemoryOp Store \<and>
       (\<exists>inc_flag. eliminateStore E b i s2 = Inr (s', inc_flag) \<and>
          i' = (if inc_flag then i else Suc i))"
proof (cases "isDead F (F ! b ! i)")
  case True
  with assms show ?thesis
    by (intro dead) (auto simp: cse_step_def)
next
  case nd: False
  show ?thesis
  proof (cases "SimplifyInstruction E F (F ! b ! i)")
    case (Some v)
    with nd assms show ?thesis
      by (intro simplified [of v]) (auto simp: cse_step_def)
  next
    case None
    from assms nd None obtain s1 where
      s1: "(if isValidForCSE (F ! b ! i)
            then domBBScan E b i (sameBBScan b i (F, st)) else Inr (F, st)) = Inr s1"
      by (auto simp: cse_step_def Let_def split: sum.splits)
    define s2 where
      "s2 = (if opcode (F ! b ! i) = MemoryOp Load then eliminateLoad b i s1 else s1)"
    from assms nd None s1 show ?thesis
      by (intro kept [of s1 s2])
        (auto simp: cse_step_def Let_def s2_def split: sum.splits prod.splits if_splits)
  qed
qed

lemma weight_cse_step:
  assumes "cse_step E b i (F, st) = Inr (s', i')"
    and "b < length F" and "i < length (F ! b)"
  shows "weight s' = weight (F, st)"
  using assms(1)
proof (cases rule: cse_step_cases)
  case dead
  then show ?thesis
    using instr_count_eraseFromParent [OF assms(2,3)]
    by (simp add: weight_def cse_total_def)
next
  case (simplified v)
  then show ?thesis
    using instr_count_eraseFromParent [of b "replaceAllUsesWith (self (F ! b ! i)) v F" i]
      assms(2,3)
    by (simp add: weight_def cse_total_def)
next
  case (kept s1 s2)
  have "weight s1 = weight (F, st)"
    using kept(3) by (auto simp: weight_domBBScan weight_sameBBScan split: if_splits)
  moreover have "weight s2 = weight s1"
    using kept(4) by (simp add: weight_eliminateLoad)
  moreover have "weight s' = weight s2"
    using kept(5) by (auto simp: weight_eliminateStore)
  ultimately show ?thesis by simp
qed


lemma weight_cse_block:
  "cse_block E b i s = Inr s' \<Longrightarrow> weight s' = weight s"
proof (induction E b i s rule: cse_block.induct)
  case (1 E b i F st)
  show ?case
  proof (cases "b < length F \<and> i < length (F ! b)")
    case False
    with "1.prems" show ?thesis
      by (subst (asm) cse_block.simps) (simp only: if_not_P, simp)
  next
    case True
    with "1.prems" obtain s1 i1 where
      st: "cse_step E b i (F, st) = Inr (s1, i1)" and rest: "cse_block E b i1 s1 = Inr s'"
      by (subst (asm) cse_block.simps) (auto split: sum.splits)
    have "weight s' = weight s1"
      using "1.IH" [OF True st refl rest] .
    moreover have "weight s1 = weight (F, st)"
      using weight_cse_step [OF st] True by simp
    ultimately show ?thesis by simp
  qed
qed

lemma weight_cse_blocks:
  "cse_blocks E bs s = Inr s' \<Longrightarrow> weight s' = weight s"
proof (induction bs arbitrary: s)
  case Nil
  then show ?case by simp
next
  case (Cons b bs)
  then show ?case
    by (auto split: sum.splits dest: weight_cse_block)
qed

lemma weight_cse_function:
  "cse_function E F st = Inr (F', st') \<Longrightarrow>
   instr_count F' + cse_total st' = instr_count F + cse_total st"
  using weight_cse_blocks [of E "[0..<length F]" "(F, st)" "(F', st')"]
  by (simp add: cse_function_def weight_def)

definition module_instrs :: "module \<Rightarrow> nat" where
  "module_instrs M = sum_list (map instr_count M)"

lemma weight_CommonSubexpressionElimination:
  "CommonSubexpressionElimination E M st = Inr (M', st') \<Longrightarrow>
   module_instrs M' + cse_total st' = module_instrs M + cse_total st"
proof (induction M arbitrary: st M' st')
  case Nil
  then show ?case by simp
next
  case (Cons F M)
  from Cons.prems obtain F1 st1 M1 where
    f: "cse_function E F st = Inr (F1, st1)"
    and m: "CommonSubexpressionElimination E M st1 = Inr (M1, st')"
    and M': "M' = F1 # M1"
    by (auto split: sum.splits prod.splits)
  have "instr_count F1 + cse_total st1 = instr_count F + cse_total st"
    using f by (rule weight_cse_function)
  moreover have "module_instrs M1 + cse_total st' = module_instrs M + cse_total st1"
    using m by (rule Cons.IH)
  ultimately show ?case
    by (simp add: M' module_instrs_def)
qed

section \<open>Concrete modules\<close>

text \<open>
  \<open>inst n t opc ops\<close> is a non-volatile instruction named \<open>n\<close> of type \<open>t\<close>. With
  \<open>plain_services\<close> the simplifier finds nothing, every block has a node without children
  (a function of one block), and stores and calls have side effects.
\<close>

definition inst :: "nat \<Rightarrow> ty \<Rightarrow> opcode \<Rightarrow> val list \<Rightarrow> instr" where
  "inst n t opc ops =
     \<lparr>self = Val n t, opcode = opc, operands = ops, isVolatile = False, special = 0\<rparr>"

definition plain_services :: services where
  "plain_services =
     \<lparr>SimplifyInstruction = (\<lambda>F I. None), getNode = (\<lambda>F b. Some []),
      mayHaveSideEffects = (\<lambda>I. opcode I = MemoryOp Store \<or> opcode I = OtherOp Call)\<rparr>"

section \<open>The summary counters\<close>

lemma summarize_block_counts:
  "summarize_block B st =
   st\<lparr>nInstructions := nInstructions st + length B,
      nLoads := nLoads st + length (filter (\<lambda>I. opcode I = MemoryOp Load) B),
      nStores := nStores st + length (filter (\<lambda>I. opcode I = MemoryOp Store) B)\<rparr>"
  by (induction B arbitrary: st) (simp_all add: Let_def)

lemma summarize_function_counts:
  "summarize_function F st =
   st\<lparr>nInstructions := nInstructions st + length (concat F),
      nLoads := nLoads st + length (filter (\<lambda>I. opcode I = MemoryOp Load) (concat F)),
      nStores := nStores st + length (filter (\<lambda>I. opcode I = MemoryOp Store) (concat F))\<rparr>"
  by (induction F arbitrary: st) (simp_all add: summarize_block_counts)

lemma summarize_adds:
  "summarize M st =
   st\<lparr>nFunctions := nFunctions st + length (filter (\<lambda>F. F \<noteq> []) M),
      nInstructions := nInstructions st + length (concat (concat M)),
      nLoads := nLoads st +
        length (filter (\<lambda>I. opcode I = MemoryOp Load) (concat (concat M))),
      nStores := nStores st +
        length (filter (\<lambda>I. opcode I = MemoryOp Store) (concat (concat M)))\<rparr>"
  by (induction M arbitrary: st) (simp_all add: summarize_function_counts)

text \<open>
  Claim C10. After \<^verbatim>\<open>summarize\<close> has run on a module, starting from counters at zero
  as \<^verbatim>\<open>main\<close> does, \<open>Functions\<close> is the number of functions that have at least one
  block (a declaration, which has none, is not counted), and \<open>Instructions\<close>, \<open>Loads\<close>
  and \<open>Stores\<close> count the instructions, the loads and the stores of all blocks of all
  functions.
\<close>

theorem summarize_counts:
  "nFunctions (summarize M no_stats) = length (filter (\<lambda>F. F \<noteq> []) M) \<and>
   nInstructions (summarize M no_stats) = length (concat (concat M)) \<and>
   nLoads (summarize M no_stats) =
     length (filter (\<lambda>I. opcode I = MemoryOp Load) (concat (concat M))) \<and>
   nStores (summarize M no_stats) =
     length (filter (\<lambda>I. opcode I = MemoryOp Store) (concat (concat M)))"
  by (simp add: summarize_adds no_stats_def)


section \<open>Rule R1\<close>

text \<open>The trivially-dead-safe set, in the words of the specification.\<close>

fun trivially_dead_safe :: "opcode \<Rightarrow> bool" where
  "trivially_dead_safe (BinaryOp a) = True"
| "trivially_dead_safe (UnaryOp a) = True"
| "trivially_dead_safe (CastOp a) = True"
| "trivially_dead_safe (MemoryOp m) = (m = GetElementPtr)"
| "trivially_dead_safe (OtherOp x) =
     (x \<in> {ICmp, FCmp, PHI, Select, ExtractElement, InsertElement, ShuffleVector,
            ExtractValue, InsertValue})"
| "trivially_dead_safe (TermOp t) = False"
| "trivially_dead_safe (FuncletPadOp p) = False"

lemma isDead_iff: "isDead F I \<longleftrightarrow> use_empty F I \<and> trivially_dead_safe (opcode I)"
proof (cases "opcode I")
  case (TermOp x)
  then show ?thesis by (simp add: isDead_def)
next
  case (UnaryOp x)
  then show ?thesis by (cases x) (simp add: isDead_def)
next
  case (BinaryOp x)
  then show ?thesis by (cases x) (simp_all add: isDead_def)
next
  case (MemoryOp x)
  then show ?thesis by (cases x) (simp_all add: isDead_def)
next
  case (CastOp x)
  then show ?thesis by (cases x) (simp_all add: isDead_def)
next
  case (FuncletPadOp x)
  then show ?thesis by (simp add: isDead_def)
next
  case (OtherOp x)
  then show ?thesis by (cases x) (simp_all add: isDead_def)
qed

lemma cse_step_dead:
  "isDead F (F ! b ! i) \<Longrightarrow>
   cse_step E b i (F, st) =
   Inr ((eraseFromParent b i F, st\<lparr>CSEDead := CSEDead st + 1\<rparr>), i)"
  by (simp add: cse_step_def)

lemma cse_step_keeps_CSEDead:
  assumes "cse_step E b i (F, st) = Inr (s', i')" and "\<not> isDead F (F ! b ! i)"
  shows "CSEDead (snd s') = CSEDead st"
  using assms(1)
proof (cases rule: cse_step_cases)
  case dead
  with assms(2) show ?thesis by simp
next
  case (simplified v)
  then show ?thesis by simp
next
  case (kept s1 s2)
  have "CSEDead (snd s1) = CSEDead st"
    using kept(3) by (auto simp: domBBScan_snd sameBBScan_snd split: if_splits)
  moreover have "CSEDead (snd s2) = CSEDead (snd s1)"
    using kept(4) by (simp add: eliminateLoad_snd)
  moreover have "CSEDead (snd s') = CSEDead (snd s2)"
    using kept(5) by (auto dest: eliminateStore_snd)
  ultimately show ?thesis by simp
qed

text \<open>
  Claim C6. \<^verbatim>\<open>isDead\<close> holds exactly when the use list is empty and the opcode is in
  the trivially-dead-safe set. At the driver's cursor a dead instruction is erased,
  \<open>CSEDead\<close> goes up by one and the cursor keeps its index (which now denotes the
  successor); when \<^verbatim>\<open>isDead\<close> fails, \<open>CSEDead\<close> is not touched by the step. A Load, Store,
  Call, Alloca, VAArg or terminator is never dead, whatever its use list.
\<close>

theorem R1_dead_instruction_elimination:
  "(isDead F I \<longleftrightarrow> use_empty F I \<and> trivially_dead_safe (opcode I)) \<and>
   (isDead F (F ! b ! i) \<longrightarrow>
      cse_step E b i (F, st) =
      Inr ((eraseFromParent b i F, st\<lparr>CSEDead := CSEDead st + 1\<rparr>), i)) \<and>
   (\<not> isDead F (F ! b ! i) \<and> cse_step E b i (F, st) = Inr ((F', st'), i') \<longrightarrow>
      CSEDead st' = CSEDead st) \<and>
   (opcode I \<in> {MemoryOp Load, MemoryOp Store, OtherOp Call, MemoryOp Alloca, OtherOp VAArg}
      \<or> isTerminator I \<longrightarrow> \<not> isDead F I)"
proof (intro conjI impI)
  show "isDead F I \<longleftrightarrow> use_empty F I \<and> trivially_dead_safe (opcode I)"
    by (rule isDead_iff)
next
  assume "isDead F (F ! b ! i)"
  then show "cse_step E b i (F, st) =
      Inr ((eraseFromParent b i F, st\<lparr>CSEDead := CSEDead st + 1\<rparr>), i)"
    by (rule cse_step_dead)
next
  assume "\<not> isDead F (F ! b ! i) \<and> cse_step E b i (F, st) = Inr ((F', st'), i')"
  then show "CSEDead st' = CSEDead st"
    using cse_step_keeps_CSEDead [of E b i F st "(F', st')" i'] by simp
next
  assume "opcode I \<in> {MemoryOp Load, MemoryOp Store, OtherOp Call, MemoryOp Alloca, OtherOp VAArg}
      \<or> isTerminator I"
  then show "\<not> isDead F I"
    by (auto simp: isDead_iff isTerminator_def split: opcode.splits)
qed

definition dead_add_example :: func where
  "dead_add_example =
     [[inst 10 1 (BinaryOp Add) [Val 0 1, Val 1 1],
       inst 11 1 (MemoryOp Load) [Val 2 3],
       inst 12 0 (TermOp Ret) []]]"

theorem R1_dead_instruction_elimination_witness:
  "isDead dead_add_example (dead_add_example ! 0 ! 0) \<and>
   cse_step plain_services 0 0 (dead_add_example, no_stats) =
     Inr ((eraseFromParent 0 0 dead_add_example,
           no_stats\<lparr>CSEDead := CSEDead no_stats + 1\<rparr>), 0) \<and>
   use_empty dead_add_example (dead_add_example ! 0 ! 1) \<and>
   opcode (dead_add_example ! 0 ! 1) = MemoryOp Load \<and>
   \<not> isDead dead_add_example (dead_add_example ! 0 ! 1) \<and>
   cse_step plain_services 0 1 (dead_add_example, no_stats) =
     Inr ((dead_add_example, no_stats), 2)"
proof -
  have d: "isDead dead_add_example (dead_add_example ! 0 ! 0)"
    by code_simp
  have u: "use_empty dead_add_example (dead_add_example ! 0 ! 1)"
    by code_simp
  have l: "opcode (dead_add_example ! 0 ! 1) = MemoryOp Load"
    by code_simp
  have s: "cse_step plain_services 0 1 (dead_add_example, no_stats) =
      Inr ((dead_add_example, no_stats), 2)"
    by code_simp
  note r0 = R1_dead_instruction_elimination
    [where F = dead_add_example and b = 0 and i = 0 and E = plain_services
       and st = no_stats and I = "dead_add_example ! 0 ! 1"]
  from r0 d l u s show ?thesis by simp
qed

section \<open>Running the pass twice\<close>

text \<open>
  \<open>%b = add %0, %1; %c = mul %0, %1; %d = sub %b, %c; ret\<close>. The first run finds
  only \<open>%d\<close> dead; that frees \<open>%b\<close> and \<open>%c\<close>, which the second run erases.
\<close>

definition dead_chain_example :: module where
  "dead_chain_example =
     [[[inst 10 1 (BinaryOp Add) [Val 0 1, Val 1 1],
        inst 11 1 (BinaryOp Mul) [Val 0 1, Val 1 1],
        inst 12 1 (BinaryOp Sub) [Val 10 1, Val 11 1],
        inst 13 0 (TermOp Ret) []]]]"

text \<open>
  Claim C8 says that a second run of the pass on the output of the first increments the
  sum of the six counters by at most what the first run did. On this module the first
  run increments the sum by 1 and the second by 2.
\<close>

theorem second_run_finds_more_counterexample:
  "CommonSubexpressionElimination plain_services dead_chain_example no_stats =
     Inr ([[[inst 10 1 (BinaryOp Add) [Val 0 1, Val 1 1],
             inst 11 1 (BinaryOp Mul) [Val 0 1, Val 1 1],
             inst 13 0 (TermOp Ret) []]]],
          no_stats\<lparr>CSEDead := 1\<rparr>) \<and>
   CommonSubexpressionElimination plain_services
       [[[inst 10 1 (BinaryOp Add) [Val 0 1, Val 1 1],
          inst 11 1 (BinaryOp Mul) [Val 0 1, Val 1 1],
          inst 13 0 (TermOp Ret) []]]]
       (no_stats\<lparr>CSEDead := 1\<rparr>) =
     Inr ([[[inst 13 0 (TermOp Ret) []]]], no_stats\<lparr>CSEDead := 3\<rparr>) \<and>
   cse_total (no_stats\<lparr>CSEDead := 1\<rparr>) - cse_total no_stats = 1 \<and>
   cse_total (no_stats\<lparr>CSEDead := 3\<rparr>) - cse_total (no_stats\<lparr>CSEDead := 1\<rparr>) = 2 \<and>
   \<not> (cse_total (no_stats\<lparr>CSEDead := 3\<rparr>) - cse_total (no_stats\<lparr>CSEDead := 1\<rparr>)
        \<le> cse_total (no_stats\<lparr>CSEDead := 1\<rparr>) - cse_total no_stats)"
  by code_simp

lemma shrinks_cse_block:
  "cse_block E b i s = Inr s' \<Longrightarrow> shrinks (fst s') (fst s)"
proof (induction E b i s rule: cse_block.induct)
  case (1 E b i F st)
  show ?case
  proof (cases "b < length F \<and> i < length (F ! b)")
    case False
    with "1.prems" show ?thesis
      by (subst (asm) cse_block.simps) (simp only: if_not_P, simp)
  next
    case True
    with "1.prems" obtain s1 i1 where
      st: "cse_step E b i (F, st) = Inr (s1, i1)" and rest: "cse_block E b i1 s1 = Inr s'"
      by (subst (asm) cse_block.simps) (auto split: sum.splits)
    have "shrinks (fst s') (fst s1)"
      using "1.IH" [OF True st refl rest] .
    moreover have "shrinks (fst s1) F"
      using cse_step_Inr [OF st] True by simp
    ultimately show ?thesis
      by (auto intro: shrinks_trans)
  qed
qed

lemma shrinks_cse_blocks:
  "cse_blocks E bs s = Inr s' \<Longrightarrow> shrinks (fst s') (fst s)"
proof (induction bs arbitrary: s)
  case Nil
  then show ?case by simp
next
  case (Cons b bs)
  then show ?case
    by (auto split: sum.splits dest: shrinks_cse_block intro: shrinks_trans)
qed

lemma cse_function_instr_count:
  "cse_function E F st = Inr (F', st') \<Longrightarrow> instr_count F' \<le> instr_count F"
  using shrinks_cse_blocks [of E "[0..<length F]" "(F, st)" "(F', st')"]
  by (simp add: cse_function_def shrinks_instr_count)

lemma CommonSubexpressionElimination_instr_count:
  "CommonSubexpressionElimination E M st = Inr (M', st') \<Longrightarrow>
   module_instrs M' \<le> module_instrs M"
proof (induction M arbitrary: st M' st')
  case Nil
  then show ?case by simp
next
  case (Cons F M)
  from Cons.prems obtain F1 st1 M1 where
    f: "cse_function E F st = Inr (F1, st1)"
    and m: "CommonSubexpressionElimination E M st1 = Inr (M1, st')"
    and M': "M' = F1 # M1"
    by (auto split: sum.splits prod.splits)
  have "instr_count F1 \<le> instr_count F"
    using f by (rule cse_function_instr_count)
  moreover have "module_instrs M1 \<le> module_instrs M"
    using m by (rule Cons.IH)
  ultimately show ?case
    by (simp add: M' module_instrs_def)
qed

text \<open>
  Claim C8, amended. Each run increments the sum of the six counters by the number of
  instructions it erases. So the second run increments the sum by at most the number
  of instructions the first run left: the number of instructions of the input minus
  the increment of the first run.
\<close>

theorem second_run_bounded_by_remaining_instructions:
  "CommonSubexpressionElimination E M st0 = Inr (M1, st1) \<and>
   CommonSubexpressionElimination E M1 st1 = Inr (M2, st2) \<longrightarrow>
     cse_total st1 - cse_total st0 = module_instrs M - module_instrs M1 \<and>
     cse_total st2 - cse_total st1 = module_instrs M1 - module_instrs M2 \<and>
     cse_total st2 - cse_total st1 \<le> module_instrs M - (cse_total st1 - cse_total st0)"
proof
  assume a: "CommonSubexpressionElimination E M st0 = Inr (M1, st1) \<and>
    CommonSubexpressionElimination E M1 st1 = Inr (M2, st2)"
  then have r1: "CommonSubexpressionElimination E M st0 = Inr (M1, st1)"
    and r2: "CommonSubexpressionElimination E M1 st1 = Inr (M2, st2)"
    by simp_all
  have "module_instrs M1 + cse_total st1 = module_instrs M + cse_total st0"
    using r1 by (rule weight_CommonSubexpressionElimination)
  moreover have "module_instrs M2 + cse_total st2 = module_instrs M1 + cse_total st1"
    using r2 by (rule weight_CommonSubexpressionElimination)
  moreover have "module_instrs M1 \<le> module_instrs M"
    using r1 by (rule CommonSubexpressionElimination_instr_count)
  moreover have "module_instrs M2 \<le> module_instrs M1"
    using r2 by (rule CommonSubexpressionElimination_instr_count)
  ultimately show "cse_total st1 - cse_total st0 = module_instrs M - module_instrs M1 \<and>
     cse_total st2 - cse_total st1 = module_instrs M1 - module_instrs M2 \<and>
     cse_total st2 - cse_total st1 \<le> module_instrs M - (cse_total st1 - cse_total st0)"
    by arith
qed

theorem second_run_bounded_by_remaining_instructions_witness:
  "CommonSubexpressionElimination plain_services dead_chain_example no_stats =
     Inr ([[[inst 10 1 (BinaryOp Add) [Val 0 1, Val 1 1],
             inst 11 1 (BinaryOp Mul) [Val 0 1, Val 1 1],
             inst 13 0 (TermOp Ret) []]]],
          no_stats\<lparr>CSEDead := 1\<rparr>) \<and>
   CommonSubexpressionElimination plain_services
       [[[inst 10 1 (BinaryOp Add) [Val 0 1, Val 1 1],
          inst 11 1 (BinaryOp Mul) [Val 0 1, Val 1 1],
          inst 13 0 (TermOp Ret) []]]]
       (no_stats\<lparr>CSEDead := 1\<rparr>) =
     Inr ([[[inst 13 0 (TermOp Ret) []]]], no_stats\<lparr>CSEDead := 3\<rparr>) \<and>
   cse_total (no_stats\<lparr>CSEDead := 3\<rparr>) - cse_total (no_stats\<lparr>CSEDead := 1\<rparr>)
     \<le> module_instrs dead_chain_example -
        (cse_total (no_stats\<lparr>CSEDead := 1\<rparr>) - cse_total no_stats)"
proof -
  have a: "CommonSubexpressionElimination plain_services dead_chain_example no_stats =
     Inr ([[[inst 10 1 (BinaryOp Add) [Val 0 1, Val 1 1],
             inst 11 1 (BinaryOp Mul) [Val 0 1, Val 1 1],
             inst 13 0 (TermOp Ret) []]]],
          no_stats\<lparr>CSEDead := 1\<rparr>)"
    by code_simp
  have b: "CommonSubexpressionElimination plain_services
       [[[inst 10 1 (BinaryOp Add) [Val 0 1, Val 1 1],
          inst 11 1 (BinaryOp Mul) [Val 0 1, Val 1 1],
          inst 13 0 (TermOp Ret) []]]]
       (no_stats\<lparr>CSEDead := 1\<rparr>) =
     Inr ([[[inst 13 0 (TermOp Ret) []]]], no_stats\<lparr>CSEDead := 3\<rparr>)"
    by code_simp
  from second_run_bounded_by_remaining_instructions
    [of plain_services dead_chain_example no_stats _ _ _ "no_stats\<lparr>CSEDead := 3\<rparr>"] a b
  show ?thesis by blast
qed

section \<open>The exit status\<close>

text \<open>
  A function whose entry block returns at once, followed by a block that no branch
  reaches: \<open>%x = add %a, 1; ret %x\<close>. The dominator tree has a node for the entry
  block and none for the second block.
\<close>

definition unreachable_block_example :: module where
  "unreachable_block_example =
     [[[inst 10 0 (TermOp Ret) [Val 1 1]],
       [inst 11 1 (BinaryOp Add) [Val 0 1, Val 2 1],
        inst 12 0 (TermOp Ret) [Val 11 1]]]]"

definition entry_only_services :: services where
  "entry_only_services =
     \<lparr>SimplifyInstruction = (\<lambda>F I. None),
      getNode = (\<lambda>F b. if b = 0 then Some [] else None),
      mayHaveSideEffects = (\<lambda>I. opcode I = MemoryOp Store \<or> opcode I = OtherOp Call)\<rparr>"

text \<open>
  Claim C9: a parse failure gives a diagnostic on standard error and exit status 1;
  a successful parse with no verification or output failure gives exit status 0.
  The first half holds (\<open>main_parse_failure\<close> below), and so does the second whenever
  the pass returns (\<open>main_success\<close>). On the module above the pass does not return:
  at the \<open>add\<close> of the unreachable block \<^verbatim>\<open>domBBScan\<close> gets a null node and dereferences
  it, and \<^verbatim>\<open>main\<close> never reaches its \<^verbatim>\<open>return 0\<close>.
\<close>

theorem main_dies_on_unreachable_block:
  "main entry_only_services (\<lambda>M. M) (\<lambda>M. True)
     \<lparr>Mem2Reg = False, NoCSE = False, Verbose = False, NoCheck = False\<rparr>
     (Some unreachable_block_example) = ([], Crashed NullNode)"
  by code_simp

lemma main_parse_failure:
  "main E promote verifies opts None = ([Diagnostic], Return 1)"
  by (simp add: main_def)

lemma main_success:
  "(if NoCSE opts then Inr (if Mem2Reg opts then promote M else M, no_stats)
    else CommonSubexpressionElimination E (if Mem2Reg opts then promote M else M) no_stats)
     = Inr (M2, st) \<Longrightarrow>
   NoCheck opts \<or> verifies M2 \<Longrightarrow>
   snd (main E promote verifies opts (Some M)) = Return 0"
  by (auto simp: main_def Let_def split: if_splits)


section \<open>Rule R4: the whole scan\<close>

text \<open>
  Rule R4 in the words of the specification. \<open>matchesLoad P T J\<close>: \<open>J\<close> is a non-volatile
  load of the pointer \<open>P\<close> with result type \<open>T\<close>. \<open>loadScan b c k\<close> walks block \<open>b\<close> from
  index \<open>k\<close> up to the first store: every matching load in that stretch is erased, every
  use of an erased load in the function is redirected to the current load (index \<open>c\<close>),
  \<open>CSELdElim\<close> goes up by the number of erased loads, and all other instructions stay in
  their order.
\<close>

definition matchesLoad :: "val \<Rightarrow> ty \<Rightarrow> instr \<Rightarrow> bool" where
  "matchesLoad P T J \<longleftrightarrow>
     opcode J = MemoryOp Load \<and> \<not> isVolatile J \<and> getOperand J 0 = P \<and> getType J = T"

definition replaceUsesOfAll :: "val list \<Rightarrow> val \<Rightarrow> instr \<Rightarrow> instr" where
  "replaceUsesOfAll olds new J =
     J\<lparr>operands := map (\<lambda>v. if v \<in> set olds then new else v) (operands J)\<rparr>"

definition notStore :: "instr \<Rightarrow> bool" where
  "notStore J \<longleftrightarrow> opcode J \<noteq> MemoryOp Store"

lemma redundantLoad_matchesLoad:
  "redundantLoad F b c k =
   matchesLoad (getOperand (F ! b ! c) 0) (getType (F ! b ! c)) (F ! b ! k)"
  by (simp add: redundantLoad_def matchesLoad_def)

lemma replaceUsesOfAll_Nil [simp]: "replaceUsesOfAll [] new J = J"
  by (simp add: replaceUsesOfAll_def)

lemma replaceUsesOfAll_Nil_fun [simp]: "replaceUsesOfAll [] new = (\<lambda>J. J)"
  by (rule ext) simp

lemma replaceUsesOfAll_Cons:
  "replaceUsesOfAll olds new (replaceUsesOfWith old new J) =
   replaceUsesOfAll (old # olds) new J"
  by (simp add: replaceUsesOfAll_def replaceUsesOfWith_def)

lemma replaceUsesOfAll_comp:
  "replaceUsesOfAll olds new \<circ> replaceUsesOfWith old new = replaceUsesOfAll (old # olds) new"
  by (rule ext) (simp add: replaceUsesOfAll_Cons)

lemma replaceUsesOfWith_fields [simp]:
  "self (replaceUsesOfWith old new J) = self J"
  "opcode (replaceUsesOfWith old new J) = opcode J"
  "isVolatile (replaceUsesOfWith old new J) = isVolatile J"
  "special (replaceUsesOfWith old new J) = special J"
  "getType (replaceUsesOfWith old new J) = getType J"
  by (simp_all add: replaceUsesOfWith_def getType_def)

lemma getOperand_replaceUsesOfWith:
  "old \<noteq> P \<Longrightarrow> new \<noteq> P \<Longrightarrow>
   getOperand (replaceUsesOfWith old new J) 0 = P \<longleftrightarrow> getOperand J 0 = P"
  by (cases "operands J") (simp_all add: getOperand_def replaceUsesOfWith_def)

lemma getOperand_replaceUsesOfWith_same:
  "getOperand J 0 \<noteq> old \<Longrightarrow> getOperand (replaceUsesOfWith old new J) 0 = getOperand J 0"
  by (cases "operands J") (simp_all add: getOperand_def replaceUsesOfWith_def)

lemma matchesLoad_replaceUsesOfWith:
  "old \<noteq> P \<Longrightarrow> new \<noteq> P \<Longrightarrow>
   matchesLoad P T (replaceUsesOfWith old new J) = matchesLoad P T J"
  by (simp add: matchesLoad_def getOperand_replaceUsesOfWith)

lemma notStore_replaceUsesOfWith [simp]:
  "notStore (replaceUsesOfWith old new J) = notStore J"
  by (simp add: notStore_def)

definition loadScan :: "nat \<Rightarrow> nat \<Rightarrow> nat \<Rightarrow> func \<times> stats \<Rightarrow> func \<times> stats" where
  "loadScan b c k s =
     (let F = fst s; blk = F ! b;
          P = getOperand (blk ! c) 0; T = getType (blk ! c);
          seg = takeWhile notStore (drop k blk);
          olds = map self (filter (matchesLoad P T) seg);
          new = self (blk ! c)
      in ((map (map (replaceUsesOfAll olds new)) F)
            [b := map (replaceUsesOfAll olds new)
                    (take k blk @ filter (\<lambda>J. \<not> matchesLoad P T J) seg @
                     dropWhile notStore (drop k blk))],
          (snd s)\<lparr>CSELdElim := CSELdElim (snd s) + length olds\<rparr>))"

text \<open>
  In SSA form the pointer operand of the current load is defined before the load. The
  scan needs less: the pointer is not the current load itself, nor a matching load in
  the stretch that is scanned.
\<close>

definition loadScoped :: "func \<Rightarrow> nat \<Rightarrow> nat \<Rightarrow> nat \<Rightarrow> bool" where
  "loadScoped F b c k \<longleftrightarrow>
     getOperand (F ! b ! c) 0 \<noteq> self (F ! b ! c) \<and>
     (\<forall>J \<in> set (takeWhile notStore (drop k (F ! b))).
        matchesLoad (getOperand (F ! b ! c) 0) (getType (F ! b ! c)) J \<longrightarrow>
        self J \<noteq> getOperand (F ! b ! c) 0)"

lemma loadScan_stop:
  assumes "b < length F" and "\<not> k < length (F ! b)"
  shows "loadScan b c k (F, st) = (F, st)"
  using assms by (simp add: loadScan_def Let_def)

lemma drop_as_Cons: "k < length xs \<Longrightarrow> drop k xs = xs ! k # drop (Suc k) xs"
  by (simp add: Cons_nth_drop_Suc)

lemma takeWhile_drop_stop:
  "k < length xs \<Longrightarrow> \<not> Q (xs ! k) \<Longrightarrow> takeWhile Q (drop k xs) = []"
  by (subst drop_as_Cons) simp_all

lemma dropWhile_drop_stop:
  assumes "k < length xs" and "\<not> Q (xs ! k)"
  shows "dropWhile Q (drop k xs) = drop k xs"
  unfolding drop_as_Cons [OF assms(1)] using assms(2) by simp

lemma takeWhile_drop_go:
  "k < length xs \<Longrightarrow> Q (xs ! k) \<Longrightarrow>
   takeWhile Q (drop k xs) = xs ! k # takeWhile Q (drop (Suc k) xs)"
  by (subst drop_as_Cons) simp_all

lemma dropWhile_drop_go:
  "k < length xs \<Longrightarrow> Q (xs ! k) \<Longrightarrow>
   dropWhile Q (drop k xs) = dropWhile Q (drop (Suc k) xs)"
  by (subst drop_as_Cons) simp_all

lemma loadScan_store:
  assumes "b < length F" and "k < length (F ! b)" and "opcode (F ! b ! k) = MemoryOp Store"
  shows "loadScan b c k (F, st) = (F, st)"
proof -
  have "\<not> notStore (F ! b ! k)"
    using assms(3) by (simp add: notStore_def)
  then show ?thesis
    using assms(1,2)
    by (simp add: loadScan_def Let_def takeWhile_drop_stop dropWhile_drop_stop)
qed

lemma loadScan_step:
  assumes "b < length F" and "k < length (F ! b)" and "opcode (F ! b ! k) \<noteq> MemoryOp Store"
    and "\<not> redundantLoad F b c k"
  shows "loadScan b c k (F, st) = loadScan b c (Suc k) (F, st)"
proof -
  have n: "notStore (F ! b ! k)"
    using assms(3) by (simp add: notStore_def)
  have m: "\<not> matchesLoad (getOperand (F ! b ! c) 0) (getType (F ! b ! c)) (F ! b ! k)"
    using assms(4) by (simp add: redundantLoad_matchesLoad)
  show ?thesis
    using assms(2) n m
    by (simp add: loadScan_def Let_def takeWhile_drop_go dropWhile_drop_go
        take_Suc_conv_app_nth)
qed

lemma loadScan_erase:
  assumes b: "b < length F" and k: "k < length (F ! b)" and c: "c < k"
    and r: "redundantLoad F b c k" and sc: "loadScoped F b c k"
  defines "G \<equiv> eraseFromParent b k
      (replaceAllUsesWith (self (F ! b ! k)) (self (F ! b ! c)) F)"
  shows "loadScan b c k (G, st\<lparr>CSELdElim := CSELdElim st + 1\<rparr>) = loadScan b c k (F, st)"
    and "loadScoped G b c k"
proof -
  let ?blk = "F ! b"
  let ?L = "?blk ! k"
  let ?cur = "?blk ! c"
  let ?P = "getOperand ?cur 0"
  let ?T = "getType ?cur"
  let ?s = "replaceUsesOfWith (self ?L) (self ?cur)"
  have mL: "matchesLoad ?P ?T ?L"
    using r by (simp add: redundantLoad_matchesLoad)
  then have nL: "notStore ?L"
    by (simp add: matchesLoad_def notStore_def)
  have curP: "?P \<noteq> self ?cur"
    using sc by (simp add: loadScoped_def)
  have seg: "takeWhile notStore (drop k ?blk) = ?L # takeWhile notStore (drop (Suc k) ?blk)"
    using k nL by (rule takeWhile_drop_go)
  have LP: "self ?L \<noteq> ?P"
    using sc mL unfolding loadScoped_def seg by simp
  have Gb: "G ! b = map ?s (take k ?blk) @ map ?s (drop (Suc k) ?blk)"
    using b by (simp add: G_def take_map drop_map)
  have lenG: "length G = length F"
    by (simp add: G_def)
  have Gc: "G ! b ! c = ?s ?cur"
    using c k by (simp add: Gb nth_append)
  have P': "getOperand (G ! b ! c) 0 = ?P"
    unfolding Gc using LP by (simp add: getOperand_replaceUsesOfWith_same)
  have T': "getType (G ! b ! c) = ?T" and self': "self (G ! b ! c) = self ?cur"
    unfolding Gc by simp_all
  have takeG: "take k (G ! b) = map ?s (take k ?blk)"
    using k by (simp add: Gb)
  have dropG: "drop k (G ! b) = map ?s (drop (Suc k) ?blk)"
    using k by (simp add: Gb)
  have ms: "matchesLoad ?P ?T (?s J) = matchesLoad ?P ?T J" for J
    using LP curP by (simp add: matchesLoad_replaceUsesOfWith)
  have ns: "notStore \<circ> ?s = notStore"
    by (simp add: fun_eq_iff)
  have segG: "takeWhile notStore (drop k (G ! b)) =
      map ?s (takeWhile notStore (drop (Suc k) ?blk))"
    unfolding dropG by (simp add: takeWhile_map ns)
  have restG: "dropWhile notStore (drop k (G ! b)) =
      map ?s (dropWhile notStore (drop (Suc k) ?blk))"
    unfolding dropG by (simp add: dropWhile_map ns)
  have rest: "dropWhile notStore (drop k ?blk) = dropWhile notStore (drop (Suc k) ?blk)"
    using k nL by (rule dropWhile_drop_go)
  let ?seg' = "takeWhile notStore (drop (Suc k) ?blk)"
  let ?olds' = "map self (filter (matchesLoad ?P ?T) ?seg')"
  have oldsG: "map self (filter (matchesLoad ?P ?T) (map ?s ?seg')) = ?olds'"
    by (simp add: filter_map comp_def ms)
  have filtG: "filter (\<lambda>J. \<not> matchesLoad ?P ?T J) (map ?s ?seg') =
      map ?s (filter (\<lambda>J. \<not> matchesLoad ?P ?T J) ?seg')"
    by (simp add: filter_map comp_def ms)
  have comp: "replaceUsesOfAll ?olds' (self ?cur) \<circ> ?s =
      replaceUsesOfAll (self ?L # ?olds') (self ?cur)"
    by (rule replaceUsesOfAll_comp)
  have mapG: "map (map (replaceUsesOfAll ?olds' (self ?cur))) G =
      (map (map (replaceUsesOfAll (self ?L # ?olds') (self ?cur))) F)
        [b := map (replaceUsesOfAll ?olds' (self ?cur)) (G ! b)]"
    using b by (simp add: G_def eraseFromParent_def replaceAllUsesWith_def map_update
        comp [unfolded comp_def] comp_def take_map drop_map)
  show "loadScan b c k (G, st\<lparr>CSELdElim := CSELdElim st + 1\<rparr>) = loadScan b c k (F, st)"
    unfolding loadScan_def Let_def fst_conv snd_conv P' T' self' segG restG seg rest oldsG
      filtG mapG takeG
    using mL by (simp add: comp)
  show "loadScoped G b c k"
    unfolding loadScoped_def P' T' self' segG
    using sc curP unfolding loadScoped_def seg
    by (simp add: matchesLoad_replaceUsesOfWith LP)
qed

lemma loadScoped_Suc:
  assumes "loadScoped F b c k" and "k < length (F ! b)" and "notStore (F ! b ! k)"
  shows "loadScoped F b c (Suc k)"
  using assms(1)
  unfolding loadScoped_def takeWhile_drop_go [of k "F ! b" notStore, OF assms(2,3)] by simp

lemma eliminateLoad_loop_closed:
  "b < length F \<Longrightarrow> c < k \<Longrightarrow> loadScoped F b c k \<Longrightarrow>
   eliminateLoad_loop b c k (F, st) = loadScan b c k (F, st)"
proof (induction k "(F, st)" arbitrary: F st
    rule: eliminateLoad_loop_induct [where b = b and c = c])
  case (stop k F st)
  then show ?case
    by (simp add: eliminateLoad_loop_stop loadScan_stop)
next
  case (erase k F st)
  let ?G = "eraseFromParent b k (replaceAllUsesWith (self (F ! b ! k)) (self (F ! b ! c)) F)"
  let ?st = "st\<lparr>CSELdElim := CSELdElim st + 1\<rparr>"
  have "eliminateLoad_loop b c k (F, st) = eliminateLoad_loop b c k (?G, ?st)"
    using erase.hyps(1,2,3) by (rule eliminateLoad_loop_erase)
  also have "\<dots> = loadScan b c k (?G, ?st)"
    using erase.hyps(4) erase.hyps(1) erase.prems(2)
      loadScan_erase(2) [OF erase.hyps(1,2) erase.prems(2) erase.hyps(3) erase.prems(3)]
    by simp
  also have "\<dots> = loadScan b c k (F, st)"
    using erase.hyps(1,2) erase.prems(2) erase.hyps(3) erase.prems(3)
    by (rule loadScan_erase(1))
  finally show ?case .
next
  case (store k F st)
  then show ?case
    by (simp add: eliminateLoad_loop_store loadScan_store)
next
  case (step k F st)
  have "loadScoped F b c (Suc k)"
    using step.prems(3) step.hyps(2) step.hyps(4)
    by (intro loadScoped_Suc) (simp_all add: notStore_def)
  then have "eliminateLoad_loop b c (Suc k) (F, st) = loadScan b c (Suc k) (F, st)"
    using step.hyps(5) step.prems(1,2) by simp
  then show ?case
    using step.hyps(1,2,3,4)
    by (simp add: eliminateLoad_loop_step loadScan_step)
qed

text \<open>
  Claim C5. At each later instruction the loop of \<^verbatim>\<open>eliminateLoad\<close> does one of three
  things: a non-volatile load of the same pointer and type is erased, its uses go to
  the current load, \<open>CSELdElim\<close> is bumped and the scan goes on at the successor; a
  store (volatile or not) ends the scan; anything else, calls and instructions with
  side effects included, is passed over. For a well-scoped current load the whole scan
  is \<open>loadScan\<close>: it erases every matching load before the first store, and nothing
  else.
\<close>

theorem R4_forward_scan:
  "(b < length F \<and> k < length (F ! b) \<and> redundantLoad F b c k \<longrightarrow>
      eliminateLoad_loop b c k (F, st) =
      eliminateLoad_loop b c k
        (eraseFromParent b k
           (replaceAllUsesWith (self (F ! b ! k)) (self (F ! b ! c)) F),
         st\<lparr>CSELdElim := CSELdElim st + 1\<rparr>)) \<and>
   (b < length F \<and> k < length (F ! b) \<and> opcode (F ! b ! k) = MemoryOp Store \<longrightarrow>
      eliminateLoad_loop b c k (F, st) = (F, st)) \<and>
   (b < length F \<and> k < length (F ! b) \<and> \<not> redundantLoad F b c k \<and>
    opcode (F ! b ! k) \<noteq> MemoryOp Store \<longrightarrow>
      eliminateLoad_loop b c k (F, st) = eliminateLoad_loop b c (Suc k) (F, st)) \<and>
   (b < length F \<and> loadScoped F b c (Suc c) \<longrightarrow>
      eliminateLoad b c (F, st) = loadScan b c (Suc c) (F, st))"
proof (intro conjI impI)
  assume "b < length F \<and> k < length (F ! b) \<and> redundantLoad F b c k"
  then show "eliminateLoad_loop b c k (F, st) =
      eliminateLoad_loop b c k
        (eraseFromParent b k
           (replaceAllUsesWith (self (F ! b ! k)) (self (F ! b ! c)) F),
         st\<lparr>CSELdElim := CSELdElim st + 1\<rparr>)"
    by (simp add: eliminateLoad_loop_erase)
next
  assume a: "b < length F \<and> k < length (F ! b) \<and> opcode (F ! b ! k) = MemoryOp Store"
  then have "\<not> redundantLoad F b c k"
    by (simp add: redundantLoad_def)
  with a show "eliminateLoad_loop b c k (F, st) = (F, st)"
    by (simp add: eliminateLoad_loop_store)
next
  assume "b < length F \<and> k < length (F ! b) \<and> \<not> redundantLoad F b c k \<and>
    opcode (F ! b ! k) \<noteq> MemoryOp Store"
  then show "eliminateLoad_loop b c k (F, st) = eliminateLoad_loop b c (Suc k) (F, st)"
    by (simp add: eliminateLoad_loop_step)
next
  assume "b < length F \<and> loadScoped F b c (Suc c)"
  then show "eliminateLoad b c (F, st) = loadScan b c (Suc c) (F, st)"
    unfolding eliminateLoad_def by (simp add: eliminateLoad_loop_closed)
qed

definition load_scan_example :: func where
  "load_scan_example =
     [[inst 10 1 (MemoryOp Load) [Val 0 2],
       inst 11 0 (OtherOp Call) [Val 5 3],
       inst 12 1 (MemoryOp Load) [Val 0 2],
       inst 13 1 (BinaryOp Add) [Val 12 1, Val 10 1],
       (inst 14 1 (MemoryOp Load) [Val 0 2])\<lparr>isVolatile := True\<rparr>,
       inst 15 4 (MemoryOp Load) [Val 0 2],
       inst 16 0 (MemoryOp Store) [Val 13 1, Val 6 2],
       inst 17 1 (MemoryOp Load) [Val 0 2],
       inst 18 0 (TermOp Ret) [Val 17 1]]]"

theorem R4_forward_scan_witness:
  "0 < length load_scan_example \<and> loadScoped load_scan_example 0 0 (Suc 0) \<and>
   eliminateLoad 0 0 (load_scan_example, no_stats) =
     ([[inst 10 1 (MemoryOp Load) [Val 0 2],
        inst 11 0 (OtherOp Call) [Val 5 3],
        inst 13 1 (BinaryOp Add) [Val 10 1, Val 10 1],
        (inst 14 1 (MemoryOp Load) [Val 0 2])\<lparr>isVolatile := True\<rparr>,
        inst 15 4 (MemoryOp Load) [Val 0 2],
        inst 16 0 (MemoryOp Store) [Val 13 1, Val 6 2],
        inst 17 1 (MemoryOp Load) [Val 0 2],
        inst 18 0 (TermOp Ret) [Val 17 1]]],
      no_stats\<lparr>CSELdElim := 1\<rparr>)"
proof -
  have a: "0 < length load_scan_example" "loadScoped load_scan_example 0 0 (Suc 0)"
    by code_simp+
  have b: "loadScan 0 0 (Suc 0) (load_scan_example, no_stats) =
     ([[inst 10 1 (MemoryOp Load) [Val 0 2],
        inst 11 0 (OtherOp Call) [Val 5 3],
        inst 13 1 (BinaryOp Add) [Val 10 1, Val 10 1],
        (inst 14 1 (MemoryOp Load) [Val 0 2])\<lparr>isVolatile := True\<rparr>,
        inst 15 4 (MemoryOp Load) [Val 0 2],
        inst 16 0 (MemoryOp Store) [Val 13 1, Val 6 2],
        inst 17 1 (MemoryOp Load) [Val 0 2],
        inst 18 0 (TermOp Ret) [Val 17 1]]],
      no_stats\<lparr>CSELdElim := 1\<rparr>)"
    by code_simp
  from R4_forward_scan [of 0 load_scan_example _ 0 no_stats] a b
  show ?thesis by simp
qed


section \<open>Rule R4 and the volatile bit of the current load\<close>

text \<open>
  A volatile load of \<open>p\<close>, then a plain load of \<open>p\<close> of the same type, then a return of
  the second load.
\<close>

definition volatile_load_example :: func where
  "volatile_load_example =
     [[(inst 10 1 (MemoryOp Load) [Val 0 2])\<lparr>isVolatile := True\<rparr>,
       inst 11 1 (MemoryOp Load) [Val 0 2],
       inst 12 0 (TermOp Ret) [Val 11 1]]]"

text \<open>
  Claim C1 says that rule R4 redirects or erases a later load, and bumps \<open>CSELdElim\<close>,
  only when the load at the cursor is not volatile. The driver calls \<^verbatim>\<open>eliminateLoad\<close> for
  every instruction whose opcode is Load, and \<^verbatim>\<open>eliminateLoad\<close> tests the volatile bit of
  the later load only: here the load at the cursor is volatile, and the later load is
  erased, its use redirected, and \<open>CSELdElim\<close> is 1.
\<close>

theorem volatile_current_load_counterexample:
  "opcode (volatile_load_example ! 0 ! 0) = MemoryOp Load \<and>
   isVolatile (volatile_load_example ! 0 ! 0) \<and>
   cse_step plain_services 0 0 (volatile_load_example, no_stats) =
     Inr (([[(inst 10 1 (MemoryOp Load) [Val 0 2])\<lparr>isVolatile := True\<rparr>,
             inst 12 0 (TermOp Ret) [Val 10 1]]],
           no_stats\<lparr>CSELdElim := 1\<rparr>), 1) \<and>
   CommonSubexpressionElimination plain_services [volatile_load_example] no_stats =
     Inr ([[[(inst 10 1 (MemoryOp Load) [Val 0 2])\<lparr>isVolatile := True\<rparr>,
             inst 12 0 (TermOp Ret) [Val 10 1]]]],
          no_stats\<lparr>CSELdElim := 1\<rparr>)"
  by code_simp

lemma Load_not_dead: "opcode I = MemoryOp Load \<Longrightarrow> \<not> isDead F I"
  by (simp add: isDead_def)

lemma cse_step_load:
  assumes "opcode (F ! b ! i) = MemoryOp Load"
    and "SimplifyInstruction E F (F ! b ! i) = None"
  shows "cse_step E b i (F, st) = Inr (eliminateLoad b i (F, st), Suc i)"
  using assms by (simp add: cse_step_def Load_not_dead isValidForCSE_def)

lemma cse_step_not_load:
  assumes "opcode (F ! b ! i) \<noteq> MemoryOp Load" and "\<not> isDead F (F ! b ! i)"
    and "SimplifyInstruction E F (F ! b ! i) = None"
  shows "cse_step E b i (F, st) =
     (case (if isValidForCSE (F ! b ! i)
            then domBBScan E b i (sameBBScan b i (F, st)) else Inr (F, st)) of
        Inl e \<Rightarrow> Inl e
      | Inr s1 \<Rightarrow>
          if opcode (F ! b ! i) = MemoryOp Store
          then (case eliminateStore E b i s1 of
                  Inl e \<Rightarrow> Inl e
                | Inr (s3, inc_flag) \<Rightarrow> Inr (s3, if inc_flag then i else Suc i))
          else Inr (s1, Suc i))"
  using assms by (simp add: cse_step_def Let_def split: sum.splits)

lemma cse_step_keeps_CSELdElim:
  assumes "cse_step E b i (F, st) = Inr (s', i')" and "opcode (F ! b ! i) \<noteq> MemoryOp Load"
  shows "CSELdElim (snd s') = CSELdElim st"
  using assms(1)
proof (cases rule: cse_step_cases)
  case dead
  then show ?thesis by simp
next
  case (simplified v)
  then show ?thesis by simp
next
  case (kept s1 s2)
  have "CSELdElim (snd s1) = CSELdElim st"
    using kept(3) by (auto simp: domBBScan_snd sameBBScan_snd split: if_splits)
  moreover have "s2 = s1"
    using kept(4) assms(2) by simp
  moreover have "CSELdElim (snd s') = CSELdElim (snd s2)"
    using kept(5) by (auto dest: eliminateStore_snd)
  ultimately show ?thesis by simp
qed

text \<open>
  Claim C1, amended. Rule R4 fires for every Load at the cursor that rule R2 leaves in
  place, volatile or not. The scan reads the volatile bit of the later load only: a
  later non-volatile load of the same pointer and type is erased, its uses go to the
  load at the cursor and \<open>CSELdElim\<close> is bumped; a later volatile load is passed over. For
  a well-scoped load at the cursor the step of the driver is \<open>loadScan\<close>, which erases
  every such load up to the first store, followed by the advance of the cursor. When
  the instruction at the cursor is not a Load, the step is made of rules R3 and R5
  only, and it does not change \<open>CSELdElim\<close>.
\<close>

theorem R4_fires_for_every_load:
  "(opcode (F ! b ! i) = MemoryOp Load \<and> SimplifyInstruction E F (F ! b ! i) = None \<and>
    b < length F \<and> loadScoped F b i (Suc i) \<longrightarrow>
      cse_step E b i (F, st) = Inr (loadScan b i (Suc i) (F, st), Suc i)) \<and>
   (b < length F \<and> k < length (F ! b) \<and>
    opcode (F ! b ! k) = MemoryOp Load \<and> \<not> isVolatile (F ! b ! k) \<and>
    getOperand (F ! b ! k) 0 = getOperand (F ! b ! i) 0 \<and>
    getType (F ! b ! k) = getType (F ! b ! i) \<longrightarrow>
      eliminateLoad_loop b i k (F, st) =
      eliminateLoad_loop b i k
        (eraseFromParent b k
           (replaceAllUsesWith (self (F ! b ! k)) (self (F ! b ! i)) F),
         st\<lparr>CSELdElim := CSELdElim st + 1\<rparr>)) \<and>
   (b < length F \<and> k < length (F ! b) \<and>
    opcode (F ! b ! k) = MemoryOp Load \<and> isVolatile (F ! b ! k) \<longrightarrow>
      eliminateLoad_loop b i k (F, st) = eliminateLoad_loop b i (Suc k) (F, st)) \<and>
   (opcode (F ! b ! i) \<noteq> MemoryOp Load \<and> \<not> isDead F (F ! b ! i) \<and>
    SimplifyInstruction E F (F ! b ! i) = None \<longrightarrow>
      cse_step E b i (F, st) =
      (case (if isValidForCSE (F ! b ! i)
             then domBBScan E b i (sameBBScan b i (F, st)) else Inr (F, st)) of
         Inl e \<Rightarrow> Inl e
       | Inr s1 \<Rightarrow>
           if opcode (F ! b ! i) = MemoryOp Store
           then (case eliminateStore E b i s1 of
                   Inl e \<Rightarrow> Inl e
                 | Inr (s3, inc_flag) \<Rightarrow> Inr (s3, if inc_flag then i else Suc i))
           else Inr (s1, Suc i))) \<and>
   (opcode (F ! b ! i) \<noteq> MemoryOp Load \<and> cse_step E b i (F, st) = Inr ((F', st'), i') \<longrightarrow>
      CSELdElim st' = CSELdElim st)"
proof (intro conjI impI)
  assume "opcode (F ! b ! i) = MemoryOp Load \<and> SimplifyInstruction E F (F ! b ! i) = None \<and>
    b < length F \<and> loadScoped F b i (Suc i)"
  then show "cse_step E b i (F, st) = Inr (loadScan b i (Suc i) (F, st), Suc i)"
    by (simp add: cse_step_load eliminateLoad_def eliminateLoad_loop_closed)
next
  assume "b < length F \<and> k < length (F ! b) \<and>
    opcode (F ! b ! k) = MemoryOp Load \<and> \<not> isVolatile (F ! b ! k) \<and>
    getOperand (F ! b ! k) 0 = getOperand (F ! b ! i) 0 \<and>
    getType (F ! b ! k) = getType (F ! b ! i)"
  then show "eliminateLoad_loop b i k (F, st) =
      eliminateLoad_loop b i k
        (eraseFromParent b k
           (replaceAllUsesWith (self (F ! b ! k)) (self (F ! b ! i)) F),
         st\<lparr>CSELdElim := CSELdElim st + 1\<rparr>)"
    by (intro eliminateLoad_loop_erase) (simp_all add: redundantLoad_def)
next
  assume "b < length F \<and> k < length (F ! b) \<and>
    opcode (F ! b ! k) = MemoryOp Load \<and> isVolatile (F ! b ! k)"
  then show "eliminateLoad_loop b i k (F, st) = eliminateLoad_loop b i (Suc k) (F, st)"
    by (intro eliminateLoad_loop_step) (simp_all add: redundantLoad_def)
next
  assume "opcode (F ! b ! i) \<noteq> MemoryOp Load \<and> \<not> isDead F (F ! b ! i) \<and>
    SimplifyInstruction E F (F ! b ! i) = None"
  then show "cse_step E b i (F, st) =
      (case (if isValidForCSE (F ! b ! i)
             then domBBScan E b i (sameBBScan b i (F, st)) else Inr (F, st)) of
         Inl e \<Rightarrow> Inl e
       | Inr s1 \<Rightarrow>
           if opcode (F ! b ! i) = MemoryOp Store
           then (case eliminateStore E b i s1 of
                   Inl e \<Rightarrow> Inl e
                 | Inr (s3, inc_flag) \<Rightarrow> Inr (s3, if inc_flag then i else Suc i))
           else Inr (s1, Suc i))"
    by (simp add: cse_step_not_load)
next
  assume "opcode (F ! b ! i) \<noteq> MemoryOp Load \<and>
    cse_step E b i (F, st) = Inr ((F', st'), i')"
  then show "CSELdElim st' = CSELdElim st"
    using cse_step_keeps_CSELdElim [of E b i F st "(F', st')" i'] by simp
qed

text \<open>
  A call, then two plain loads of \<open>p\<close> of the same type: with the cursor at the call,
  both loads stay.
\<close>

definition call_then_loads_example :: func where
  "call_then_loads_example =
     [[inst 9 0 (OtherOp Call) [Val 5 3],
       inst 10 1 (MemoryOp Load) [Val 0 2],
       inst 11 1 (MemoryOp Load) [Val 0 2],
       inst 12 0 (TermOp Ret) [Val 11 1]]]"

theorem R4_fires_for_every_load_witness:
  "opcode (volatile_load_example ! 0 ! 0) = MemoryOp Load \<and>
   isVolatile (volatile_load_example ! 0 ! 0) \<and>
   SimplifyInstruction plain_services volatile_load_example (volatile_load_example ! 0 ! 0)
     = None \<and>
   0 < length volatile_load_example \<and> loadScoped volatile_load_example 0 0 (Suc 0) \<and>
   cse_step plain_services 0 0 (volatile_load_example, no_stats) =
     Inr (([[(inst 10 1 (MemoryOp Load) [Val 0 2])\<lparr>isVolatile := True\<rparr>,
             inst 12 0 (TermOp Ret) [Val 10 1]]],
           no_stats\<lparr>CSELdElim := 1\<rparr>), 1) \<and>
   opcode (call_then_loads_example ! 0 ! 0) \<noteq> MemoryOp Load \<and>
   \<not> isDead call_then_loads_example (call_then_loads_example ! 0 ! 0) \<and>
   SimplifyInstruction plain_services call_then_loads_example
     (call_then_loads_example ! 0 ! 0) = None \<and>
   cse_step plain_services 0 0 (call_then_loads_example, no_stats) =
     Inr ((call_then_loads_example, no_stats), 1) \<and>
   CSELdElim no_stats = CSELdElim no_stats"
proof -
  have a: "opcode (volatile_load_example ! 0 ! 0) = MemoryOp Load"
    "isVolatile (volatile_load_example ! 0 ! 0)"
    "SimplifyInstruction plain_services volatile_load_example (volatile_load_example ! 0 ! 0)
       = None"
    "0 < length volatile_load_example" "loadScoped volatile_load_example 0 0 (Suc 0)"
    by code_simp+
  have l: "loadScan 0 0 (Suc 0) (volatile_load_example, no_stats) =
     ([[(inst 10 1 (MemoryOp Load) [Val 0 2])\<lparr>isVolatile := True\<rparr>,
        inst 12 0 (TermOp Ret) [Val 10 1]]],
      no_stats\<lparr>CSELdElim := 1\<rparr>)"
    by code_simp
  have b: "opcode (call_then_loads_example ! 0 ! 0) \<noteq> MemoryOp Load"
    "\<not> isDead call_then_loads_example (call_then_loads_example ! 0 ! 0)"
    "SimplifyInstruction plain_services call_then_loads_example
       (call_then_loads_example ! 0 ! 0) = None"
    by code_simp+
  have c: "(case (if isValidForCSE (call_then_loads_example ! 0 ! 0)
             then domBBScan plain_services 0 0 (sameBBScan 0 0 (call_then_loads_example, no_stats))
             else Inr (call_then_loads_example, no_stats)) of
         Inl e \<Rightarrow> Inl e
       | Inr s1 \<Rightarrow>
           if opcode (call_then_loads_example ! 0 ! 0) = MemoryOp Store
           then (case eliminateStore plain_services 0 0 s1 of
                   Inl e \<Rightarrow> Inl e
                 | Inr (s3, inc_flag) \<Rightarrow> Inr (s3, if inc_flag then 0 else Suc 0))
           else Inr (s1, Suc 0)) =
     Inr ((call_then_loads_example, no_stats), 1)"
    by code_simp
  from R4_fires_for_every_load [where F = volatile_load_example and E = plain_services
      and st = no_stats and b = 0 and i = 0] a
  have "cse_step plain_services 0 0 (volatile_load_example, no_stats) =
     Inr (loadScan 0 0 (Suc 0) (volatile_load_example, no_stats), Suc 0)"
    by blast
  then have c1: "cse_step plain_services 0 0 (volatile_load_example, no_stats) =
     Inr (([[(inst 10 1 (MemoryOp Load) [Val 0 2])\<lparr>isVolatile := True\<rparr>,
             inst 12 0 (TermOp Ret) [Val 10 1]]],
           no_stats\<lparr>CSELdElim := 1\<rparr>), 1)"
    unfolding l by simp
  note r = R4_fires_for_every_load [where F = call_then_loads_example
      and E = plain_services and st = no_stats and b = 0 and i = 0
      and F' = call_then_loads_example and st' = no_stats and i' = 1]
  from r b have "cse_step plain_services 0 0 (call_then_loads_example, no_stats) =
      (case (if isValidForCSE (call_then_loads_example ! 0 ! 0)
             then domBBScan plain_services 0 0 (sameBBScan 0 0 (call_then_loads_example, no_stats))
             else Inr (call_then_loads_example, no_stats)) of
         Inl e \<Rightarrow> Inl e
       | Inr s1 \<Rightarrow>
           if opcode (call_then_loads_example ! 0 ! 0) = MemoryOp Store
           then (case eliminateStore plain_services 0 0 s1 of
                   Inl e \<Rightarrow> Inl e
                 | Inr (s3, inc_flag) \<Rightarrow> Inr (s3, if inc_flag then 0 else Suc 0))
           else Inr (s1, Suc 0))"
    by blast
  then have c4: "cse_step plain_services 0 0 (call_then_loads_example, no_stats) =
     Inr ((call_then_loads_example, no_stats), 1)"
    unfolding c .
  from r b(1) c4 have c5: "CSELdElim no_stats = CSELdElim no_stats"
    by blast
  show ?thesis
    by (intro conjI a c1 b c4 c5)
qed


section \<open>Rule R3: the scan of the dominated blocks\<close>

lemma replaceUsesOfAll_fields [simp]:
  "self (replaceUsesOfAll olds new J) = self J"
  "opcode (replaceUsesOfAll olds new J) = opcode J"
  "isVolatile (replaceUsesOfAll olds new J) = isVolatile J"
  "special (replaceUsesOfAll olds new J) = special J"
  "getType (replaceUsesOfAll olds new J) = getType J"
  by (simp_all add: replaceUsesOfAll_def getType_def)

lemma replaceUsesOfWith_eq: "replaceUsesOfWith old new = replaceUsesOfAll [old] new"
  by (rule ext) (simp add: replaceUsesOfAll_def replaceUsesOfWith_def)

lemma replaceUsesOfAll_append:
  "replaceUsesOfAll B new \<circ> replaceUsesOfAll A new = replaceUsesOfAll (A @ B) new"
  by (rule ext) (simp add: replaceUsesOfAll_def)

lemma replaceUsesOfAll_id:
  assumes "set olds \<inter> set (operands J) = {}"
  shows "replaceUsesOfAll olds new J = J"
proof -
  have "map (\<lambda>v. if v \<in> set olds then new else v) (operands J) = operands J"
    using assms by (intro map_idI) auto
  then show ?thesis
    by (simp add: replaceUsesOfAll_def)
qed

lemma isIdenticalTo_replaceUsesOfAll:
  assumes "self I \<notin> set (operands I)" and "set olds \<inter> set (operands I) = {}"
  shows "isIdenticalTo (replaceUsesOfAll olds (self I) K) I = isIdenticalTo K I"
proof -
  define f where "f = (\<lambda>v. if v \<in> set olds then self I else v)"
  have ops: "operands (replaceUsesOfAll olds (self I) K) = map f (operands K)"
    by (simp add: replaceUsesOfAll_def f_def)
  have "map f (operands K) = operands I \<longleftrightarrow> operands K = operands I"
  proof
    assume eq: "map f (operands K) = operands I"
    have len: "length (operands K) = length (operands I)"
      using arg_cong [OF eq, of length] by simp
    have "operands K ! n = operands I ! n" if "n < length (operands K)" for n
    proof -
      have "f (operands K ! n) = operands I ! n"
        using arg_cong [OF eq, of "\<lambda>xs. xs ! n"] that by simp
      moreover have "operands I ! n \<in> set (operands I)"
        using that len by simp
      ultimately show ?thesis
        using assms(1) unfolding f_def by (cases "operands K ! n \<in> set olds") auto
    qed
    with len show "operands K = operands I"
      by (simp add: list_eq_iff_nth_eq)
  next
    assume eq: "operands K = operands I"
    have "map f (operands I) = operands I"
      using assms(2) unfolding f_def by (intro map_idI) auto
    with eq show "map f (operands K) = operands I"
      by simp
  qed
  then show ?thesis
    unfolding isIdenticalTo_def ops by simp
qed

text \<open>
  The scan of one block \<open>t\<close> from index \<open>p\<close>, in closed form: the instructions identical
  to the current one (index \<open>c\<close> of block \<open>b\<close>) are erased, their uses redirected.
\<close>

definition identScanBlock ::
  "nat \<Rightarrow> nat \<Rightarrow> nat \<Rightarrow> nat \<Rightarrow> func \<times> stats \<Rightarrow> func \<times> stats" where
  "identScanBlock b c t p s =
     (let F = fst s; I = F ! b ! c;
          olds = map self (filter (\<lambda>J. isIdenticalTo J I) (drop p (F ! t)))
      in ((map (map (replaceUsesOfAll olds (self I))) F)
            [t := map (replaceUsesOfAll olds (self I))
                    (take p (F ! t) @ filter (\<lambda>J. \<not> isIdenticalTo J I) (drop p (F ! t)))],
          (snd s)\<lparr>CSEElim := CSEElim (snd s) + length olds\<rparr>))"

definition identScopedBlock :: "func \<Rightarrow> nat \<Rightarrow> nat \<Rightarrow> nat \<Rightarrow> nat \<Rightarrow> bool" where
  "identScopedBlock F b c t p \<longleftrightarrow>
     self (F ! b ! c) \<notin> set (operands (F ! b ! c)) \<and>
     (\<forall>J \<in> set (drop p (F ! t)).
        isIdenticalTo J (F ! b ! c) \<longrightarrow> self J \<notin> set (operands (F ! b ! c)))"

lemma identScanBlock_stop:
  assumes "t < length F" and "\<not> p < length (F ! t)"
  shows "identScanBlock b c t p (F, st) = (F, st)"
  using assms by (simp add: identScanBlock_def Let_def)

lemma identScanBlock_step:
  assumes "p < length (F ! t)" and "\<not> isIdenticalTo (F ! t ! p) (F ! b ! c)"
  shows "identScanBlock b c t p (F, st) = identScanBlock b c t (Suc p) (F, st)"
  using assms
  by (simp add: identScanBlock_def Let_def drop_as_Cons [of p "F ! t"] take_Suc_conv_app_nth)

lemma identScopedBlock_Suc:
  assumes "identScopedBlock F b c t p" and "p < length (F ! t)"
  shows "identScopedBlock F b c t (Suc p)"
  using assms(1) unfolding identScopedBlock_def drop_as_Cons [OF assms(2)] by simp

lemma identScanBlock_erase:
  assumes t: "t < length F" and p: "p < length (F ! t)" and tb: "t \<noteq> b \<or> c < p"
    and b: "b < length F" and c: "c < length (F ! b)"
    and h: "isIdenticalTo (F ! t ! p) (F ! b ! c)" and sc: "identScopedBlock F b c t p"
  defines "G \<equiv> eraseFromParent t p
      (replaceAllUsesWith (self (F ! t ! p)) (self (F ! b ! c)) F)"
  shows "identScanBlock b c t p (G, st\<lparr>CSEElim := CSEElim st + 1\<rparr>) =
      identScanBlock b c t p (F, st)"
    and "identScopedBlock G b c t p"
proof -
  let ?blk = "F ! t"
  let ?L = "?blk ! p"
  let ?I = "F ! b ! c"
  let ?s = "replaceUsesOfWith (self ?L) (self ?I)"
  have II: "self ?I \<notin> set (operands ?I)"
    using sc by (simp add: identScopedBlock_def)
  have d: "drop p ?blk = ?L # drop (Suc p) ?blk"
    using p by (rule drop_as_Cons)
  have LI: "self ?L \<notin> set (operands ?I)"
    using sc h unfolding identScopedBlock_def d by simp
  have sI: "?s ?I = ?I"
    unfolding replaceUsesOfWith_eq using LI by (intro replaceUsesOfAll_id) simp
  have Gt: "G ! t = map ?s (take p ?blk) @ map ?s (drop (Suc p) ?blk)"
    using t by (simp add: G_def take_map drop_map)
  have Gb: "G ! b ! c = ?I"
  proof (cases "t = b")
    case False
    with b c sI show ?thesis by (simp add: G_def)
  next
    case True
    with tb have cp: "c < p" by simp
    have "G ! t ! c = ?s (?blk ! c)"
      using cp p by (simp add: Gt nth_append)
    then show ?thesis
      using sI unfolding True by simp
  qed
  have takeG: "take p (G ! t) = map ?s (take p ?blk)"
    using p by (simp add: Gt)
  have dropG: "drop p (G ! t) = map ?s (drop (Suc p) ?blk)"
    using p by (simp add: Gt)
  have hs: "isIdenticalTo (?s J) ?I = isIdenticalTo J ?I" for J
    unfolding replaceUsesOfWith_eq using II LI
    by (intro isIdenticalTo_replaceUsesOfAll) simp_all
  let ?rest = "drop (Suc p) ?blk"
  let ?olds' = "map self (filter (\<lambda>J. isIdenticalTo J ?I) ?rest)"
  have oldsG: "map self (filter (\<lambda>J. isIdenticalTo J ?I) (map ?s ?rest)) = ?olds'"
    by (simp add: filter_map comp_def hs)
  have filtG: "filter (\<lambda>J. \<not> isIdenticalTo J ?I) (map ?s ?rest) =
      map ?s (filter (\<lambda>J. \<not> isIdenticalTo J ?I) ?rest)"
    by (simp add: filter_map comp_def hs)
  have comp: "replaceUsesOfAll ?olds' (self ?I) \<circ> ?s =
      replaceUsesOfAll (self ?L # ?olds') (self ?I)"
    by (rule replaceUsesOfAll_comp)
  have mapG: "map (map (replaceUsesOfAll ?olds' (self ?I))) G =
      (map (map (replaceUsesOfAll (self ?L # ?olds') (self ?I))) F)
        [t := map (replaceUsesOfAll ?olds' (self ?I)) (G ! t)]"
    using t by (simp add: G_def eraseFromParent_def replaceAllUsesWith_def map_update
        comp [unfolded comp_def] comp_def take_map drop_map)
  show "identScanBlock b c t p (G, st\<lparr>CSEElim := CSEElim st + 1\<rparr>) =
      identScanBlock b c t p (F, st)"
    unfolding identScanBlock_def Let_def fst_conv snd_conv Gb dropG d oldsG filtG mapG takeG
    using h by (simp add: comp)
  show "identScopedBlock G b c t p"
    unfolding identScopedBlock_def Gb dropG
    using sc unfolding identScopedBlock_def d
    by (simp add: hs)
qed

lemma domBBScan_block_closed:
  "t < length F \<Longrightarrow> t \<noteq> b \<or> c < p \<Longrightarrow> b < length F \<Longrightarrow> c < length (F ! b) \<Longrightarrow>
   identScopedBlock F b c t p \<Longrightarrow>
   domBBScan_block b c t p (F, st) = identScanBlock b c t p (F, st)"
proof (induction p "(F, st)" arbitrary: F st
    rule: domBBScan_block_induct [where b = b and c = c and t = t])
  case (stop p F st)
  then show ?case
    by (simp add: domBBScan_block_stop identScanBlock_stop)
next
  case (erase p F st)
  let ?G = "eraseFromParent t p (replaceAllUsesWith (self (F ! t ! p)) (self (F ! b ! c)) F)"
  let ?st = "st\<lparr>CSEElim := CSEElim st + 1\<rparr>"
  note e = identScanBlock_erase [OF erase.hyps(1,2) erase.prems(2,3,4) erase.hyps(3)
      erase.prems(5)]
  have cG: "c < length (?G ! b)"
  proof (cases "t = b")
    case False
    then have "?G ! b = map (replaceUsesOfWith (self (F ! t ! p)) (self (F ! b ! c))) (F ! b)"
      using erase.prems(3) by simp
    then show ?thesis
      using erase.prems(4) by simp
  next
    case True
    with erase.prems(2) erase.hyps(1,2) show ?thesis by simp
  qed
  have "domBBScan_block b c t p (F, st) = domBBScan_block b c t p (?G, ?st)"
    using erase.hyps(1,2,3) by (rule domBBScan_block_erase)
  also have "\<dots> = identScanBlock b c t p (?G, ?st)"
    using erase.hyps(4) erase.prems(1,2,3) cG e(2) by simp
  also have "\<dots> = identScanBlock b c t p (F, st)"
    by (rule e(1))
  finally show ?case .
next
  case (step p F st)
  have "identScopedBlock F b c t (Suc p)"
    using step.prems(5) step.hyps(2) by (rule identScopedBlock_Suc)
  moreover have "t \<noteq> b \<or> c < Suc p"
    using step.prems(2) by auto
  ultimately have
    "domBBScan_block b c t (Suc p) (F, st) = identScanBlock b c t (Suc p) (F, st)"
    using step.hyps(4) step.prems(1,3,4) by simp
  then show ?case
    using step.hyps(1,2,3)
    by (simp add: domBBScan_block_step identScanBlock_step)
qed

text \<open>
  The dominated-block scan in the words of the specification: in every block of the
  list \<open>cs\<close>, and in no other, every instruction identical to the current one is erased;
  every use of an erased instruction is redirected to the current instruction;
  \<open>CSEElim\<close> goes up by the number of erased instructions. Identical is
  \<^verbatim>\<open>isIdenticalTo\<close>: same opcode, type, operand references and flags.

  \<open>identScoped\<close>: the current instruction is not its own operand, and no identical
  instruction of the scanned blocks is. In SSA form only a phi can fail this.
\<close>

definition identScan :: "nat \<Rightarrow> nat \<Rightarrow> nat list \<Rightarrow> func \<times> stats \<Rightarrow> func \<times> stats" where
  "identScan b c cs s =
     (let F = fst s; I = F ! b ! c;
          olds = concat (map (\<lambda>t. map self (filter (\<lambda>J. isIdenticalTo J I) (F ! t))) cs)
      in (map (\<lambda>t. map (replaceUsesOfAll olds (self I))
                    (if t \<in> set cs then filter (\<lambda>J. \<not> isIdenticalTo J I) (F ! t)
                     else F ! t))
            [0..<length F],
          (snd s)\<lparr>CSEElim := CSEElim (snd s) + length olds\<rparr>))"

definition identScoped :: "func \<Rightarrow> nat \<Rightarrow> nat \<Rightarrow> nat list \<Rightarrow> bool" where
  "identScoped F b c cs \<longleftrightarrow>
     self (F ! b ! c) \<notin> set (operands (F ! b ! c)) \<and>
     (\<forall>t \<in> set cs. \<forall>J \<in> set (F ! t).
        isIdenticalTo J (F ! b ! c) \<longrightarrow> self J \<notin> set (operands (F ! b ! c)))"

lemma domBBScan_children_closed:
  "b < length F \<Longrightarrow> c < length (F ! b) \<Longrightarrow> b \<notin> set cs \<Longrightarrow> distinct cs \<Longrightarrow>
   \<forall>t \<in> set cs. t < length F \<Longrightarrow> identScoped F b c cs \<Longrightarrow>
   domBBScan_children b c cs (F, st) = identScan b c cs (F, st)"
proof (induction cs arbitrary: F st)
  case Nil
  then show ?case
    by (simp add: identScan_def Let_def map_nth)
next
  case (Cons t ts)
  let ?I = "F ! b ! c"
  let ?hit = "\<lambda>J. isIdenticalTo J ?I"
  let ?olds1 = "map self (filter ?hit (F ! t))"
  let ?r1 = "replaceUsesOfAll ?olds1 (self ?I)"
  let ?F1 = "(map (map ?r1) F)[t := map ?r1 (filter (\<lambda>J. \<not> ?hit J) (F ! t))]"
  let ?st1 = "st\<lparr>CSEElim := CSEElim st + length ?olds1\<rparr>"
  from Cons.prems have t: "t < length F" and tb: "t \<noteq> b" and tts: "t \<notin> set ts"
    and dts: "distinct ts" and bts: "b \<notin> set ts" and lts: "\<forall>u \<in> set ts. u < length F"
    by auto
  have II: "self ?I \<notin> set (operands ?I)"
    using Cons.prems(6) by (simp add: identScoped_def)
  have scb: "identScopedBlock F b c t 0"
    using Cons.prems(6) by (simp add: identScoped_def identScopedBlock_def)
  have s1: "domBBScan_block b c t 0 (F, st) = (?F1, ?st1)"
    using domBBScan_block_closed [OF t disjI1 [OF tb] Cons.prems(1,2) scb, of st]
    by (simp add: identScanBlock_def Let_def)
  have dis1: "set ?olds1 \<inter> set (operands ?I) = {}"
    using Cons.prems(6) by (auto simp: identScoped_def)
  have len1: "length ?F1 = length F"
    by simp
  have nth1: "?F1 ! u = map ?r1 (F ! u)" if "u < length F" "u \<noteq> t" for u
    using that by simp
  have I1: "?F1 ! b ! c = ?I"
    using nth1 [OF Cons.prems(1)] tb Cons.prems(2) replaceUsesOfAll_id [OF dis1] by simp
  have hs: "isIdenticalTo (?r1 K) ?I = isIdenticalTo K ?I" for K
    using II dis1 by (rule isIdenticalTo_replaceUsesOfAll)
  have sc1: "identScoped ?F1 b c ts"
    unfolding identScoped_def I1
  proof (intro conjI ballI impI)
    show "self ?I \<notin> set (operands ?I)" by (rule II)
  next
    fix u J
    assume u: "u \<in> set ts" and J: "J \<in> set (?F1 ! u)" and h: "isIdenticalTo J ?I"
    from u lts tts have "u < length F" "u \<noteq> t" by auto
    with J obtain K where K: "K \<in> set (F ! u)" and JK: "J = ?r1 K"
      by (auto simp: nth1)
    from h JK have "isIdenticalTo K ?I" by (simp add: hs)
    with K u Cons.prems(6) have "self K \<notin> set (operands ?I)"
      by (auto simp: identScoped_def)
    with JK show "self J \<notin> set (operands ?I)" by simp
  qed
  have c1: "c < length (?F1 ! b)"
    using nth1 [OF Cons.prems(1)] tb Cons.prems(2) by simp
  have IH: "domBBScan_children b c ts (?F1, ?st1) = identScan b c ts (?F1, ?st1)"
    using Cons.IH [of ?F1 ?st1] Cons.prems(1) c1 bts dts lts sc1 by simp
  let ?olds2 = "concat (map (\<lambda>u. map self (filter ?hit (F ! u))) ts)"
  let ?r2 = "replaceUsesOfAll ?olds2 (self ?I)"
  let ?r = "replaceUsesOfAll (?olds1 @ ?olds2) (self ?I)"
  have olds2: "concat (map (\<lambda>u. map self (filter ?hit (?F1 ! u))) ts) = ?olds2"
  proof -
    have "map self (filter ?hit (?F1 ! u)) = map self (filter ?hit (F ! u))"
      if "u \<in> set ts" for u
    proof -
      from that lts tts have "u < length F" "u \<noteq> t" by auto
      then show ?thesis
        by (simp add: nth1 filter_map comp_def hs)
    qed
    then show ?thesis
      by (simp cong: map_cong)
  qed
  have comp: "?r2 (?r1 K) = ?r K" for K
    using replaceUsesOfAll_append [of ?olds2 "self ?I" ?olds1] by (simp add: fun_eq_iff)
  have blocks: "map ?r2 (if u \<in> set ts then filter (\<lambda>J. \<not> ?hit J) (?F1 ! u) else ?F1 ! u) =
      map ?r (if u \<in> set (t # ts) then filter (\<lambda>J. \<not> ?hit J) (F ! u) else F ! u)"
    if "u < length F" for u
  proof (cases "u = t")
    case True
    with t tts show ?thesis
      by (simp add: comp_def comp)
  next
    case False
    with that show ?thesis
      by (simp add: nth1 filter_map comp_def hs comp)
  qed
  have "identScan b c ts (?F1, ?st1) = identScan b c (t # ts) (F, st)"
    unfolding identScan_def Let_def fst_conv snd_conv I1 olds2 len1
    using blocks by (simp cong: map_cong)
  with s1 IH show ?case
    by simp
qed

lemma domBBScan_block_other_length:
  "u < length F \<Longrightarrow> u \<noteq> t \<Longrightarrow>
   length (fst (domBBScan_block b c t p (F, st)) ! u) = length (F ! u)"
proof (induction p "(F, st)" arbitrary: F st
    rule: domBBScan_block_induct [where b = b and c = c and t = t])
  case (stop p F st)
  then show ?case by (simp add: domBBScan_block_stop)
next
  case (erase p F st)
  then show ?case by (simp add: domBBScan_block_erase)
next
  case (step p F st)
  then show ?case by (simp add: domBBScan_block_step)
qed

lemma domBBScan_children_other_length:
  "u < length F \<Longrightarrow> u \<notin> set cs \<Longrightarrow>
   length (fst (domBBScan_children b c cs (F, st)) ! u) = length (F ! u)"
proof (induction cs arbitrary: F st)
  case Nil
  then show ?case by simp
next
  case (Cons t ts)
  obtain F1 st1 where r: "domBBScan_block b c t 0 (F, st) = (F1, st1)"
    by (cases "domBBScan_block b c t 0 (F, st)")
  have "length F1 = length F"
    using shrinks_domBBScan_block [of b c t 0 "(F, st)"] r by (simp add: shrinks_length)
  moreover have "length (F1 ! u) = length (F ! u)"
    using domBBScan_block_other_length [of u F t b c 0 st] Cons.prems r by simp
  ultimately show ?case
    using Cons.IH [of F1 st1] Cons.prems r by simp
qed

text \<open>
  Claim C3. When the current block has a node in the dominator tree computed on the
  function as it is now, with children \<open>cs\<close>, \<^verbatim>\<open>domBBScan\<close> is \<open>identScan\<close> over exactly the
  blocks \<open>cs\<close>: one level of the tree. A block that is not a child, a grandchild for
  instance, keeps all its instructions, identical ones included.
\<close>

theorem R3_dominated_block_scan:
  "(getNode E F b = Some cs \<and> b < length F \<and> c < length (F ! b) \<and> b \<notin> set cs \<and>
    distinct cs \<and> (\<forall>t \<in> set cs. t < length F) \<and> identScoped F b c cs \<longrightarrow>
      domBBScan E b c (F, st) = Inr (identScan b c cs (F, st))) \<and>
   (getNode E F b = Some cs \<and> domBBScan E b c (F, st) = Inr (F', st') \<and>
    u < length F \<and> u \<notin> set cs \<longrightarrow>
      length (F' ! u) = length (F ! u))"
proof (intro conjI impI)
  assume "getNode E F b = Some cs \<and> b < length F \<and> c < length (F ! b) \<and> b \<notin> set cs \<and>
    distinct cs \<and> (\<forall>t \<in> set cs. t < length F) \<and> identScoped F b c cs"
  then show "domBBScan E b c (F, st) = Inr (identScan b c cs (F, st))"
    by (simp add: domBBScan_def domBBScan_children_closed)
next
  assume a: "getNode E F b = Some cs \<and> domBBScan E b c (F, st) = Inr (F', st') \<and>
    u < length F \<and> u \<notin> set cs"
  then have "F' = fst (domBBScan_children b c cs (F, st))"
    by (auto simp: domBBScan_def)
  with a show "length (F' ! u) = length (F ! u)"
    by (simp add: domBBScan_children_other_length)
qed

text \<open>
  Scenario 4 of the specification with one more level: the entry block (0) computes a
  product and branches to block 1, which recomputes it and branches to block 2, which
  recomputes it again. Block 1 is the only child of the entry block in the dominator
  tree, block 2 the only child of block 1.
\<close>

definition chain_example :: func where
  "chain_example =
     [[inst 10 1 (BinaryOp Mul) [Val 0 1, Val 1 1],
       inst 11 0 (TermOp Br) [Val 101 9]],
      [inst 12 1 (BinaryOp Mul) [Val 0 1, Val 1 1],
       inst 13 1 (BinaryOp Add) [Val 12 1, Val 0 1],
       inst 14 0 (TermOp Br) [Val 102 9]],
      [inst 15 1 (BinaryOp Mul) [Val 0 1, Val 1 1],
       inst 16 0 (TermOp Ret) [Val 15 1]]]"

definition chain_services :: services where
  "chain_services =
     \<lparr>SimplifyInstruction = (\<lambda>F I. None),
      getNode = (\<lambda>F b. if b = 0 then Some [1] else if b = 1 then Some [2] else Some []),
      mayHaveSideEffects = (\<lambda>I. opcode I = MemoryOp Store \<or> opcode I = OtherOp Call)\<rparr>"

theorem R3_dominated_block_scan_witness:
  "getNode chain_services chain_example 0 = Some [1] \<and> identScoped chain_example 0 0 [1] \<and>
   domBBScan chain_services 0 0 (chain_example, no_stats) =
     Inr ([[inst 10 1 (BinaryOp Mul) [Val 0 1, Val 1 1],
            inst 11 0 (TermOp Br) [Val 101 9]],
           [inst 13 1 (BinaryOp Add) [Val 10 1, Val 0 1],
            inst 14 0 (TermOp Br) [Val 102 9]],
           [inst 15 1 (BinaryOp Mul) [Val 0 1, Val 1 1],
            inst 16 0 (TermOp Ret) [Val 15 1]]],
          no_stats\<lparr>CSEElim := 1\<rparr>) \<and>
   length (chain_example ! 2) = 2"
proof -
  have a: "getNode chain_services chain_example 0 = Some [1]"
    "identScoped chain_example 0 0 [1]"
    "0 < length chain_example" "0 < length (chain_example ! 0)"
    "0 \<notin> set [1::nat]" "distinct [1::nat]" "\<forall>t \<in> set [1::nat]. t < length chain_example"
    by code_simp+
  have b: "identScan 0 0 [1] (chain_example, no_stats) =
     ([[inst 10 1 (BinaryOp Mul) [Val 0 1, Val 1 1],
        inst 11 0 (TermOp Br) [Val 101 9]],
       [inst 13 1 (BinaryOp Add) [Val 10 1, Val 0 1],
        inst 14 0 (TermOp Br) [Val 102 9]],
       [inst 15 1 (BinaryOp Mul) [Val 0 1, Val 1 1],
        inst 16 0 (TermOp Ret) [Val 15 1]]],
      no_stats\<lparr>CSEElim := 1\<rparr>)"
    by code_simp
  have c: "length (chain_example ! 2) = 2" "(2::nat) < length chain_example" "2 \<notin> set [1::nat]"
    by code_simp+
  note r = R3_dominated_block_scan [where E = chain_services and F = chain_example
      and b = 0 and c = 0 and cs = "[1]" and st = no_stats and u = 2]
  from r a b have d: "domBBScan chain_services 0 0 (chain_example, no_stats) =
     Inr ([[inst 10 1 (BinaryOp Mul) [Val 0 1, Val 1 1],
            inst 11 0 (TermOp Br) [Val 101 9]],
           [inst 13 1 (BinaryOp Add) [Val 10 1, Val 0 1],
            inst 14 0 (TermOp Br) [Val 102 9]],
           [inst 15 1 (BinaryOp Mul) [Val 0 1, Val 1 1],
            inst 16 0 (TermOp Ret) [Val 15 1]]],
          no_stats\<lparr>CSEElim := 1\<rparr>)"
    by simp
  with a c show ?thesis by simp
qed


section \<open>Rule R3 runs on the eligible opcodes that rules R1 and R2 leave in place\<close>

lemma cse_step_keeps_CSEElim:
  assumes "cse_step E b i (F, st) = Inr (s', i')" and "\<not> isValidForCSE (F ! b ! i)"
  shows "CSEElim (snd s') = CSEElim st"
  using assms(1)
proof (cases rule: cse_step_cases)
  case dead
  then show ?thesis by simp
next
  case (simplified v)
  then show ?thesis by simp
next
  case (kept s1 s2)
  have "s1 = (F, st)"
    using kept(3) assms(2) by simp
  moreover have "CSEElim (snd s2) = CSEElim (snd s1)"
    using kept(4) by (simp add: eliminateLoad_snd)
  moreover have "CSEElim (snd s') = CSEElim (snd s2)"
    using kept(5) by (auto dest: eliminateStore_snd)
  ultimately show ?thesis by simp
qed

lemma cse_step_eligible:
  assumes "\<not> isDead F (F ! b ! i)" and "SimplifyInstruction E F (F ! b ! i) = None"
    and "isValidForCSE (F ! b ! i)"
  shows "cse_step E b i (F, st) =
     (case domBBScan E b i (sameBBScan b i (F, st)) of
        Inl e \<Rightarrow> Inl e | Inr s1 \<Rightarrow> Inr (s1, Suc i))"
proof -
  from assms(3) have "opcode (F ! b ! i) \<noteq> MemoryOp Load" "opcode (F ! b ! i) \<noteq> MemoryOp Store"
    by (auto simp: isValidForCSE_def split: if_splits)
  with assms show ?thesis
    by (simp add: cse_step_def split: sum.splits)
qed

lemma cse_step_not_eligible:
  assumes "\<not> isDead F (F ! b ! i)" and "SimplifyInstruction E F (F ! b ! i) = None"
    and "\<not> isValidForCSE (F ! b ! i)"
  shows "cse_step E b i (F, st) =
     (if opcode (F ! b ! i) = MemoryOp Store
      then (case eliminateStore E b i (F, st) of
              Inl e \<Rightarrow> Inl e
            | Inr (s3, inc_flag) \<Rightarrow> Inr (s3, if inc_flag then i else Suc i))
      else Inr (if opcode (F ! b ! i) = MemoryOp Load
                then eliminateLoad b i (F, st) else (F, st), Suc i))"
  using assms by (simp add: cse_step_def Let_def)

text \<open>The two scans of rule R3, one after the other, in closed form.\<close>

lemma sameBBScan_closed:
  assumes "b < length F" and "c < length (F ! b)" and "identScopedBlock F b c b (Suc c)"
  shows "sameBBScan b c (F, st) = identScanBlock b c b (Suc c) (F, st)"
  unfolding sameBBScan_def sameBBScan_loop_eq
  using assms by (intro domBBScan_block_closed) simp_all

lemma identScoped_identScanBlock:
  fixes st :: stats
  assumes b: "b < length F" and c: "c < length (F ! b)"
    and scb: "identScopedBlock F b c b (Suc c)" and sc: "identScoped F b c cs"
    and bcs: "b \<notin> set cs" and lcs: "\<forall>t \<in> set cs. t < length F"
  defines "F1 \<equiv> fst (identScanBlock b c b (Suc c) (F, st))"
  shows "length F1 = length F" and "c < length (F1 ! b)" and "identScoped F1 b c cs"
proof -
  let ?I = "F ! b ! c"
  let ?hit = "\<lambda>J. isIdenticalTo J ?I"
  let ?olds1 = "map self (filter ?hit (drop (Suc c) (F ! b)))"
  let ?r1 = "replaceUsesOfAll ?olds1 (self ?I)"
  have F1: "F1 = (map (map ?r1) F)
      [b := map ?r1 (take (Suc c) (F ! b) @ filter (\<lambda>J. \<not> ?hit J) (drop (Suc c) (F ! b)))]"
    by (simp add: F1_def identScanBlock_def Let_def)
  show len: "length F1 = length F"
    by (simp add: F1)
  have F1b: "F1 ! b =
      map ?r1 (take (Suc c) (F ! b) @ filter (\<lambda>J. \<not> ?hit J) (drop (Suc c) (F ! b)))"
    using b by (simp add: F1)
  show c1: "c < length (F1 ! b)"
    using c by (simp add: F1b)
  have II: "self ?I \<notin> set (operands ?I)"
    using sc by (simp add: identScoped_def)
  have dis1: "set ?olds1 \<inter> set (operands ?I) = {}"
    using scb by (auto simp: identScopedBlock_def)
  have "F1 ! b ! c = ?r1 ?I"
    using c by (simp add: F1b nth_append)
  then have I1: "F1 ! b ! c = ?I"
    using replaceUsesOfAll_id [OF dis1] by simp
  have nth1: "F1 ! u = map ?r1 (F ! u)" if "u < length F" "u \<noteq> b" for u
    using that by (simp add: F1)
  have hs: "isIdenticalTo (?r1 K) ?I = isIdenticalTo K ?I" for K
    using II dis1 by (rule isIdenticalTo_replaceUsesOfAll)
  show "identScoped F1 b c cs"
    unfolding identScoped_def I1
  proof (intro conjI ballI impI)
    show "self ?I \<notin> set (operands ?I)" by (rule II)
  next
    fix u J
    assume u: "u \<in> set cs" and J: "J \<in> set (F1 ! u)" and h: "isIdenticalTo J ?I"
    from u lcs bcs have "u < length F" "u \<noteq> b" by auto
    with J obtain K where K: "K \<in> set (F ! u)" and JK: "J = ?r1 K"
      by (auto simp: nth1)
    from h JK have "isIdenticalTo K ?I" by (simp add: hs)
    with K u sc have "self K \<notin> set (operands ?I)"
      by (auto simp: identScoped_def)
    with JK show "self J \<notin> set (operands ?I)" by simp
  qed
qed

lemma cse_step_eligible_closed:
  assumes nd: "\<not> isDead F (F ! b ! i)" and ns: "SimplifyInstruction E F (F ! b ! i) = None"
    and v: "isValidForCSE (F ! b ! i)"
    and b: "b < length F" and i: "i < length (F ! b)"
    and scb: "identScopedBlock F b i b (Suc i)" and sc: "identScoped F b i cs"
    and g: "getNode E (fst (identScanBlock b i b (Suc i) (F, st))) b = Some cs"
    and bcs: "b \<notin> set cs" and dcs: "distinct cs" and lcs: "\<forall>t \<in> set cs. t < length F"
  shows "cse_step E b i (F, st) =
     Inr (identScan b i cs (identScanBlock b i b (Suc i) (F, st)), Suc i)"
proof -
  obtain F1 st1 where s1: "identScanBlock b i b (Suc i) (F, st) = (F1, st1)"
    by (cases "identScanBlock b i b (Suc i) (F, st)")
  note p = identScoped_identScanBlock [OF b i scb sc bcs lcs, where st = st,
      unfolded s1 fst_conv]
  have same: "sameBBScan b i (F, st) = (F1, st1)"
    using sameBBScan_closed [OF b i scb, of st] s1 by simp
  have "domBBScan_children b i cs (F1, st1) = identScan b i cs (F1, st1)"
    using p b bcs dcs lcs by (intro domBBScan_children_closed) simp_all
  then have "domBBScan E b i (F1, st1) = Inr (identScan b i cs (F1, st1))"
    using g unfolding s1 by (simp add: domBBScan_def)
  then show ?thesis
    unfolding cse_step_eligible [OF nd ns v] same s1 by simp
qed

text \<open>
  Two identical multiplications, the first without a use, then a return of the second.
\<close>

definition dead_mul_example :: func where
  "dead_mul_example =
     [[inst 10 1 (BinaryOp Mul) [Val 0 1, Val 1 1],
       inst 11 1 (BinaryOp Mul) [Val 0 1, Val 1 1],
       inst 12 0 (TermOp Ret) [Val 11 1]]]"

text \<open>
  Claim C7 says that the two scans of rule R3 run for an instruction if and only if
  its opcode is eligible. The driver reaches them only for an instruction that rules
  R1 and R2 leave in place: here the multiplication at the cursor is eligible and
  dead, so rule R1 erases it, \<open>CSEElim\<close> stays at zero and the identical multiplication
  behind it stays, where \<^verbatim>\<open>sameBBScan\<close> would have erased that one.
\<close>

theorem eligible_dead_counterexample:
  "isValidForCSE (dead_mul_example ! 0 ! 0) \<and>
   isIdenticalTo (dead_mul_example ! 0 ! 1) (dead_mul_example ! 0 ! 0) \<and>
   cse_step plain_services 0 0 (dead_mul_example, no_stats) =
     Inr (([[inst 11 1 (BinaryOp Mul) [Val 0 1, Val 1 1],
             inst 12 0 (TermOp Ret) [Val 11 1]]],
           no_stats\<lparr>CSEDead := 1\<rparr>), 0) \<and>
   sameBBScan 0 0 (dead_mul_example, no_stats) =
     ([[inst 10 1 (BinaryOp Mul) [Val 0 1, Val 1 1],
        inst 12 0 (TermOp Ret) [Val 10 1]]],
      no_stats\<lparr>CSEElim := 1\<rparr>) \<and>
   CommonSubexpressionElimination plain_services [dead_mul_example] no_stats =
     Inr ([[[inst 11 1 (BinaryOp Mul) [Val 0 1, Val 1 1],
             inst 12 0 (TermOp Ret) [Val 11 1]]]],
          no_stats\<lparr>CSEDead := 1\<rparr>)"
  by code_simp

text \<open>
  Claim C7, amended. \<^verbatim>\<open>isValidForCSE\<close> holds exactly for the opcodes other than Load,
  Store, FCmp, Alloca, VAArg, Call and the terminators. The two scans of rule R3 run
  for the instruction at the cursor exactly when its opcode is eligible and rules R1
  and R2 leave the instruction in place: then the step of the driver is \<^verbatim>\<open>sameBBScan\<close>
  followed by \<^verbatim>\<open>domBBScan\<close> and the advance of the cursor, and for a well-scoped
  instruction whose block has the children \<open>cs\<close> in the dominator tree that is the
  erasure of every identical instruction behind it in its block and in the blocks
  \<open>cs\<close>. A dead instruction is erased by rule R1 and a simplified one by rule R2,
  eligible or not, and neither scan runs. When the opcode is not eligible, the step is
  made of rules R4 and R5 only, and \<open>CSEElim\<close> is unchanged.
\<close>

theorem R3_runs_iff_eligible:
  "(isValidForCSE I \<longleftrightarrow>
      opcode I \<notin> {MemoryOp Load, MemoryOp Store, OtherOp FCmp, MemoryOp Alloca,
                   OtherOp VAArg, OtherOp Call} \<and> \<not> isTerminator I) \<and>
   (\<not> isDead F (F ! b ! i) \<and> SimplifyInstruction E F (F ! b ! i) = None \<and>
    isValidForCSE (F ! b ! i) \<longrightarrow>
      cse_step E b i (F, st) =
      (case domBBScan E b i (sameBBScan b i (F, st)) of
         Inl e \<Rightarrow> Inl e | Inr s1 \<Rightarrow> Inr (s1, Suc i))) \<and>
   (\<not> isDead F (F ! b ! i) \<and> SimplifyInstruction E F (F ! b ! i) = None \<and>
    isValidForCSE (F ! b ! i) \<and> b < length F \<and> i < length (F ! b) \<and>
    identScopedBlock F b i b (Suc i) \<and> identScoped F b i cs \<and>
    getNode E (fst (identScanBlock b i b (Suc i) (F, st))) b = Some cs \<and>
    b \<notin> set cs \<and> distinct cs \<and> (\<forall>t \<in> set cs. t < length F) \<longrightarrow>
      cse_step E b i (F, st) =
      Inr (identScan b i cs (identScanBlock b i b (Suc i) (F, st)), Suc i)) \<and>
   (isDead F (F ! b ! i) \<longrightarrow>
      cse_step E b i (F, st) =
      Inr ((eraseFromParent b i F, st\<lparr>CSEDead := CSEDead st + 1\<rparr>), i)) \<and>
   (\<not> isDead F (F ! b ! i) \<and> SimplifyInstruction E F (F ! b ! i) = Some v \<longrightarrow>
      cse_step E b i (F, st) =
      Inr ((eraseFromParent b i (replaceAllUsesWith (self (F ! b ! i)) v F),
            st\<lparr>CSESimplify := CSESimplify st + 1\<rparr>), i)) \<and>
   (\<not> isDead F (F ! b ! i) \<and> SimplifyInstruction E F (F ! b ! i) = None \<and>
    \<not> isValidForCSE (F ! b ! i) \<longrightarrow>
      cse_step E b i (F, st) =
      (if opcode (F ! b ! i) = MemoryOp Store
       then (case eliminateStore E b i (F, st) of
               Inl e \<Rightarrow> Inl e
             | Inr (s3, inc_flag) \<Rightarrow> Inr (s3, if inc_flag then i else Suc i))
       else Inr (if opcode (F ! b ! i) = MemoryOp Load
                 then eliminateLoad b i (F, st) else (F, st), Suc i))) \<and>
   (\<not> isValidForCSE (F ! b ! i) \<and> cse_step E b i (F, st) = Inr ((F', st'), i') \<longrightarrow>
      CSEElim st' = CSEElim st)"
proof (intro conjI impI)
  show "isValidForCSE I \<longleftrightarrow>
      opcode I \<notin> {MemoryOp Load, MemoryOp Store, OtherOp FCmp, MemoryOp Alloca,
                   OtherOp VAArg, OtherOp Call} \<and> \<not> isTerminator I"
    by (simp add: isValidForCSE_def)
next
  assume "\<not> isDead F (F ! b ! i) \<and> SimplifyInstruction E F (F ! b ! i) = None \<and>
    isValidForCSE (F ! b ! i)"
  then show "cse_step E b i (F, st) =
      (case domBBScan E b i (sameBBScan b i (F, st)) of
         Inl e \<Rightarrow> Inl e | Inr s1 \<Rightarrow> Inr (s1, Suc i))"
    by (simp add: cse_step_eligible)
next
  assume "\<not> isDead F (F ! b ! i) \<and> SimplifyInstruction E F (F ! b ! i) = None \<and>
    isValidForCSE (F ! b ! i) \<and> b < length F \<and> i < length (F ! b) \<and>
    identScopedBlock F b i b (Suc i) \<and> identScoped F b i cs \<and>
    getNode E (fst (identScanBlock b i b (Suc i) (F, st))) b = Some cs \<and>
    b \<notin> set cs \<and> distinct cs \<and> (\<forall>t \<in> set cs. t < length F)"
  then show "cse_step E b i (F, st) =
      Inr (identScan b i cs (identScanBlock b i b (Suc i) (F, st)), Suc i)"
    by (intro cse_step_eligible_closed) simp_all
next
  assume "isDead F (F ! b ! i)"
  then show "cse_step E b i (F, st) =
      Inr ((eraseFromParent b i F, st\<lparr>CSEDead := CSEDead st + 1\<rparr>), i)"
    by (simp add: cse_step_def)
next
  assume "\<not> isDead F (F ! b ! i) \<and> SimplifyInstruction E F (F ! b ! i) = Some v"
  then show "cse_step E b i (F, st) =
      Inr ((eraseFromParent b i (replaceAllUsesWith (self (F ! b ! i)) v F),
            st\<lparr>CSESimplify := CSESimplify st + 1\<rparr>), i)"
    by (simp add: cse_step_def)
next
  assume "\<not> isDead F (F ! b ! i) \<and> SimplifyInstruction E F (F ! b ! i) = None \<and>
    \<not> isValidForCSE (F ! b ! i)"
  then show "cse_step E b i (F, st) =
      (if opcode (F ! b ! i) = MemoryOp Store
       then (case eliminateStore E b i (F, st) of
               Inl e \<Rightarrow> Inl e
             | Inr (s3, inc_flag) \<Rightarrow> Inr (s3, if inc_flag then i else Suc i))
       else Inr (if opcode (F ! b ! i) = MemoryOp Load
                 then eliminateLoad b i (F, st) else (F, st), Suc i))"
    by (simp add: cse_step_not_eligible)
next
  assume "\<not> isValidForCSE (F ! b ! i) \<and> cse_step E b i (F, st) = Inr ((F', st'), i')"
  then show "CSEElim st' = CSEElim st"
    using cse_step_keeps_CSEElim [of E b i F st "(F', st')" i'] by simp
qed

text \<open>
  Scenarios 3 and 4 of the specification in one function. The entry block (0) computes
  a product twice, compares floats twice and branches to block 1, which recomputes the
  product and branches to block 2, which recomputes it again. Block 1 is the only child
  of the entry block in the dominator tree, block 2 the only child of block 1. From the
  cursor at the first product, the products of blocks 0 and 1 are erased, and the
  product of block 2 stays; from the cursor at the first compare, nothing changes.
\<close>

definition mul_twice_example :: func where
  "mul_twice_example =
     [[inst 10 1 (BinaryOp Mul) [Val 0 1, Val 1 1],
       inst 11 1 (BinaryOp Mul) [Val 0 1, Val 1 1],
       inst 12 1 (BinaryOp Add) [Val 10 1, Val 11 1],
       inst 13 2 (OtherOp FCmp) [Val 2 3, Val 3 3],
       inst 14 2 (OtherOp FCmp) [Val 2 3, Val 3 3],
       inst 15 2 (BinaryOp And) [Val 13 2, Val 14 2],
       inst 16 0 (TermOp Br) [Val 101 9]],
      [inst 17 1 (BinaryOp Mul) [Val 0 1, Val 1 1],
       inst 18 1 (BinaryOp Add) [Val 17 1, Val 12 1],
       inst 19 0 (TermOp Br) [Val 102 9]],
      [inst 20 1 (BinaryOp Mul) [Val 0 1, Val 1 1],
       inst 21 0 (TermOp Ret) [Val 20 1, Val 18 1, Val 15 2]]]"

theorem R3_runs_iff_eligible_witness:
  "\<not> isDead mul_twice_example (mul_twice_example ! 0 ! 0) \<and>
   SimplifyInstruction chain_services mul_twice_example (mul_twice_example ! 0 ! 0) = None \<and>
   isValidForCSE (mul_twice_example ! 0 ! 0) \<and>
   identScopedBlock mul_twice_example 0 0 0 (Suc 0) \<and> identScoped mul_twice_example 0 0 [1] \<and>
   getNode chain_services
     (fst (identScanBlock 0 0 0 (Suc 0) (mul_twice_example, no_stats))) 0 = Some [1] \<and>
   cse_step chain_services 0 0 (mul_twice_example, no_stats) =
     Inr (([[inst 10 1 (BinaryOp Mul) [Val 0 1, Val 1 1],
             inst 12 1 (BinaryOp Add) [Val 10 1, Val 10 1],
             inst 13 2 (OtherOp FCmp) [Val 2 3, Val 3 3],
             inst 14 2 (OtherOp FCmp) [Val 2 3, Val 3 3],
             inst 15 2 (BinaryOp And) [Val 13 2, Val 14 2],
             inst 16 0 (TermOp Br) [Val 101 9]],
            [inst 18 1 (BinaryOp Add) [Val 10 1, Val 12 1],
             inst 19 0 (TermOp Br) [Val 102 9]],
            [inst 20 1 (BinaryOp Mul) [Val 0 1, Val 1 1],
             inst 21 0 (TermOp Ret) [Val 20 1, Val 18 1, Val 15 2]]],
           no_stats\<lparr>CSEElim := 2\<rparr>), 1) \<and>
   \<not> isDead mul_twice_example (mul_twice_example ! 0 ! 3) \<and>
   \<not> isValidForCSE (mul_twice_example ! 0 ! 3) \<and>
   isIdenticalTo (mul_twice_example ! 0 ! 4) (mul_twice_example ! 0 ! 3) \<and>
   cse_step chain_services 0 3 (mul_twice_example, no_stats) =
     Inr ((mul_twice_example, no_stats), 4) \<and>
   CSEElim no_stats = CSEElim no_stats \<and>
   isDead dead_mul_example (dead_mul_example ! 0 ! 0) \<and>
   cse_step chain_services 0 0 (dead_mul_example, no_stats) =
     Inr ((eraseFromParent 0 0 dead_mul_example,
           no_stats\<lparr>CSEDead := CSEDead no_stats + 1\<rparr>), 0)"
proof -
  have a: "\<not> isDead mul_twice_example (mul_twice_example ! 0 ! 0)"
    "SimplifyInstruction chain_services mul_twice_example (mul_twice_example ! 0 ! 0) = None"
    "isValidForCSE (mul_twice_example ! 0 ! 0)"
    "identScopedBlock mul_twice_example 0 0 0 (Suc 0)" "identScoped mul_twice_example 0 0 [1]"
    "getNode chain_services
       (fst (identScanBlock 0 0 0 (Suc 0) (mul_twice_example, no_stats))) 0 = Some [1]"
    by code_simp+
  have a': "0 < length mul_twice_example" "0 < length (mul_twice_example ! 0)"
    "0 \<notin> set [1::nat]" "distinct [1::nat]" "\<forall>t \<in> set [1::nat]. t < length mul_twice_example"
    by code_simp+
  have e: "identScan 0 0 [1] (identScanBlock 0 0 0 (Suc 0) (mul_twice_example, no_stats)) =
     ([[inst 10 1 (BinaryOp Mul) [Val 0 1, Val 1 1],
        inst 12 1 (BinaryOp Add) [Val 10 1, Val 10 1],
        inst 13 2 (OtherOp FCmp) [Val 2 3, Val 3 3],
        inst 14 2 (OtherOp FCmp) [Val 2 3, Val 3 3],
        inst 15 2 (BinaryOp And) [Val 13 2, Val 14 2],
        inst 16 0 (TermOp Br) [Val 101 9]],
       [inst 18 1 (BinaryOp Add) [Val 10 1, Val 12 1],
        inst 19 0 (TermOp Br) [Val 102 9]],
       [inst 20 1 (BinaryOp Mul) [Val 0 1, Val 1 1],
        inst 21 0 (TermOp Ret) [Val 20 1, Val 18 1, Val 15 2]]],
      no_stats\<lparr>CSEElim := 2\<rparr>)"
    by code_simp
  have c: "\<not> isDead mul_twice_example (mul_twice_example ! 0 ! 3)"
    "\<not> isValidForCSE (mul_twice_example ! 0 ! 3)"
    "isIdenticalTo (mul_twice_example ! 0 ! 4) (mul_twice_example ! 0 ! 3)"
    by code_simp+
  have c': "SimplifyInstruction chain_services mul_twice_example (mul_twice_example ! 0 ! 3)
      = None"
    by code_simp
  have d: "(if opcode (mul_twice_example ! 0 ! 3) = MemoryOp Store
       then (case eliminateStore chain_services 0 3 (mul_twice_example, no_stats) of
               Inl e \<Rightarrow> Inl e
             | Inr (s3, inc_flag) \<Rightarrow> Inr (s3, if inc_flag then 3 else Suc 3))
       else Inr (if opcode (mul_twice_example ! 0 ! 3) = MemoryOp Load
                 then eliminateLoad 0 3 (mul_twice_example, no_stats)
                 else (mul_twice_example, no_stats), Suc 3)) =
     Inr ((mul_twice_example, no_stats), 4)"
    by code_simp
  have x: "isDead dead_mul_example (dead_mul_example ! 0 ! 0)"
    by code_simp
  note r = R3_runs_iff_eligible [where F = mul_twice_example and E = chain_services
      and st = no_stats and b = 0]
  from r [where i = 0 and cs = "[1]"] a a' have
    "cse_step chain_services 0 0 (mul_twice_example, no_stats) =
     Inr (identScan 0 0 [1] (identScanBlock 0 0 0 (Suc 0) (mul_twice_example, no_stats)),
          Suc 0)"
    by blast
  then have c1: "cse_step chain_services 0 0 (mul_twice_example, no_stats) =
     Inr (([[inst 10 1 (BinaryOp Mul) [Val 0 1, Val 1 1],
             inst 12 1 (BinaryOp Add) [Val 10 1, Val 10 1],
             inst 13 2 (OtherOp FCmp) [Val 2 3, Val 3 3],
             inst 14 2 (OtherOp FCmp) [Val 2 3, Val 3 3],
             inst 15 2 (BinaryOp And) [Val 13 2, Val 14 2],
             inst 16 0 (TermOp Br) [Val 101 9]],
            [inst 18 1 (BinaryOp Add) [Val 10 1, Val 12 1],
             inst 19 0 (TermOp Br) [Val 102 9]],
            [inst 20 1 (BinaryOp Mul) [Val 0 1, Val 1 1],
             inst 21 0 (TermOp Ret) [Val 20 1, Val 18 1, Val 15 2]]],
           no_stats\<lparr>CSEElim := 2\<rparr>), 1)"
    unfolding e by simp
  note r3 = r [where i = 3 and F' = mul_twice_example and st' = no_stats and i' = 4]
  from r3 c c' have "cse_step chain_services 0 3 (mul_twice_example, no_stats) =
      (if opcode (mul_twice_example ! 0 ! 3) = MemoryOp Store
       then (case eliminateStore chain_services 0 3 (mul_twice_example, no_stats) of
               Inl e \<Rightarrow> Inl e
             | Inr (s3, inc_flag) \<Rightarrow> Inr (s3, if inc_flag then 3 else Suc 3))
       else Inr (if opcode (mul_twice_example ! 0 ! 3) = MemoryOp Load
                 then eliminateLoad 0 3 (mul_twice_example, no_stats)
                 else (mul_twice_example, no_stats), Suc 3))"
    by blast
  then have c2: "cse_step chain_services 0 3 (mul_twice_example, no_stats) =
     Inr ((mul_twice_example, no_stats), 4)"
    unfolding d .
  from r3 c(2) c2 have c3: "CSEElim no_stats = CSEElim no_stats"
    by blast
  from R3_runs_iff_eligible [where F = dead_mul_example and E = chain_services
      and st = no_stats and b = 0 and i = 0] x
  have c4: "cse_step chain_services 0 0 (dead_mul_example, no_stats) =
     Inr ((eraseFromParent 0 0 dead_mul_example,
           no_stats\<lparr>CSEDead := CSEDead no_stats + 1\<rparr>), 0)"
    by blast
  show ?thesis
    by (intro conjI a c1 c c2 c3 x c4)
qed


section \<open>Rule R5\<close>

lemma use_empty_iff:
  "use_empty F I \<longleftrightarrow> (\<forall>B \<in> set F. \<forall>J \<in> set B. self I \<notin> set (operands J))"
  by (simp add: use_empty_def list_all_iff)

lemma use_empty_replaceAllUsesWith:
  "new \<noteq> self I \<Longrightarrow> use_empty (replaceAllUsesWith (self I) new F) I"
  by (auto simp: use_empty_iff replaceAllUsesWith_def replaceUsesOfWith_def)

lemma use_empty_eraseFromParent:
  assumes "use_empty F I"
  shows "use_empty (eraseFromParent b k F) I"
proof (cases "b < length F")
  case False
  with assms show ?thesis by (simp add: eraseFromParent_def list_update_beyond)
next
  case True
  have "set (take k (F ! b) @ drop (Suc k) (F ! b)) \<subseteq> set (F ! b)"
    using set_take_subset [of k "F ! b"] set_drop_subset [of "Suc k" "F ! b"] by auto
  moreover have "F ! b \<in> set F"
    using True by simp
  moreover have "set (eraseFromParent b k F) \<subseteq>
      insert (take k (F ! b) @ drop (Suc k) (F ! b)) (set F)"
    unfolding eraseFromParent_def by (rule set_update_subset_insert)
  ultimately show ?thesis
    using assms unfolding use_empty_iff by blast
qed

text \<open>
  Rule R5 in the words of the specification. The scan from the store at index \<open>c\<close>
  (pointer operand \<open>P\<close>, stored value \<open>V\<close> of type \<open>T\<close>) passes over the non-volatile loads
  of \<open>P\<close> with type \<open>T\<close>, which it forwards to, and over the instructions that are not a
  load, a store or a call and have no side effects. \<open>forwardScan b c m\<close> walks block \<open>b\<close>
  from index \<open>m\<close> up to the first instruction the scan does not pass: every matching
  load in that stretch is erased, every use of an erased load in the function is
  redirected to \<open>V\<close>, \<open>CSEStore2Load\<close> goes up by the number of erased loads, and all
  other instructions stay in their order. \<open>scanEnd\<close> is the index at which the scan
  ends, and \<open>storeScan\<close> is the whole rule: where the scan ends at a store that
  overwrites the current one, the current store is erased as well.
\<close>

definition passesStoreScan :: "services \<Rightarrow> val \<Rightarrow> ty \<Rightarrow> instr \<Rightarrow> bool" where
  "passesStoreScan E P T J \<longleftrightarrow> matchesLoad P T J \<or> \<not> stopsStoreScan E J"

definition forwardScan ::
  "services \<Rightarrow> nat \<Rightarrow> nat \<Rightarrow> nat \<Rightarrow> func \<times> stats \<Rightarrow> func \<times> stats" where
  "forwardScan E b c m s =
     (let F = fst s; blk = F ! b;
          P = getOperand (blk ! c) 1; V = getOperand (blk ! c) 0; T = vty V;
          seg = takeWhile (passesStoreScan E P T) (drop m blk);
          olds = map self (filter (matchesLoad P T) seg)
      in ((map (map (replaceUsesOfAll olds V)) F)
            [b := map (replaceUsesOfAll olds V)
                    (take m blk @ filter (\<lambda>J. \<not> matchesLoad P T J) seg @
                     dropWhile (passesStoreScan E P T) (drop m blk))],
          (snd s)\<lparr>CSEStore2Load := CSEStore2Load (snd s) + length olds\<rparr>))"

definition scanEnd :: "services \<Rightarrow> nat \<Rightarrow> nat \<Rightarrow> nat \<Rightarrow> func \<Rightarrow> nat" where
  "scanEnd E b c m F =
     (let blk = F ! b;
          P = getOperand (blk ! c) 1; T = vty (getOperand (blk ! c) 0)
      in m + length (filter (\<lambda>J. \<not> matchesLoad P T J)
                      (takeWhile (passesStoreScan E P T) (drop m blk))))"

definition storeScan ::
  "services \<Rightarrow> nat \<Rightarrow> nat \<Rightarrow> nat \<Rightarrow> func \<times> stats \<Rightarrow> (func \<times> stats) \<times> bool" where
  "storeScan E b c m s =
     (let s1 = forwardScan E b c m s; n = scanEnd E b c m (fst s)
      in if n < length (fst s1 ! b) \<and> overwrittenBy (fst s1) b c n
         then ((eraseFromParent b c (fst s1),
                (snd s1)\<lparr>CSEStElim := CSEStElim (snd s1) + 1\<rparr>), True)
         else (s1, False))"

text \<open>
  In SSA form the operands of the store are defined before it. The scan needs less:
  the stored value is not the pointer, and a matching load in the stretch that is
  scanned is neither of the two. For an instruction other than a call, the library
  decides \<^verbatim>\<open>mayHaveSideEffects\<close> from the opcode and the flags, not from the operands.
\<close>

definition storeScoped :: "services \<Rightarrow> func \<Rightarrow> nat \<Rightarrow> nat \<Rightarrow> nat \<Rightarrow> bool" where
  "storeScoped E F b c m \<longleftrightarrow>
     (let P = getOperand (F ! b ! c) 1; V = getOperand (F ! b ! c) 0; T = vty V
      in V \<noteq> P \<and>
         (\<forall>J \<in> set (takeWhile (passesStoreScan E P T) (drop m (F ! b))).
            matchesLoad P T J \<longrightarrow> self J \<noteq> P \<and> self J \<noteq> V))"

definition operandBlind :: "services \<Rightarrow> bool" where
  "operandBlind E \<longleftrightarrow>
     (\<forall>J ops. opcode J \<noteq> OtherOp Call \<longrightarrow>
        mayHaveSideEffects E (J\<lparr>operands := ops\<rparr>) = mayHaveSideEffects E J)"

lemma forwardsToLoad_matchesLoad:
  "forwardsToLoad F b c m =
   matchesLoad (getOperand (F ! b ! c) 1) (vty (getOperand (F ! b ! c) 0)) (F ! b ! m)"
  by (simp add: forwardsToLoad_def matchesLoad_def)

lemma overwrittenBy_stops: "overwrittenBy F b c m \<Longrightarrow> stopsStoreScan E (F ! b ! m)"
  by (simp add: overwrittenBy_def stopsStoreScan_def)

lemma nth_map_unless:
  "xs ! n \<noteq> old \<Longrightarrow> map (\<lambda>v. if v = old then new else v) xs ! n = xs ! n"
proof (induction xs arbitrary: n)
  case Nil
  then show ?case by simp
next
  case (Cons x xs)
  then show ?case by (cases n) simp_all
qed

lemma getOperand_replaceUsesOfWith_other:
  "getOperand J n \<noteq> old \<Longrightarrow> getOperand (replaceUsesOfWith old new J) n = getOperand J n"
  by (simp add: getOperand_def replaceUsesOfWith_def nth_map_unless)

lemma stopsStoreScan_replaceUsesOfWith:
  assumes "operandBlind E"
  shows "stopsStoreScan E (replaceUsesOfWith old new J) = stopsStoreScan E J"
proof (cases "opcode J = OtherOp Call")
  case True
  then show ?thesis by (simp add: stopsStoreScan_def)
next
  case False
  with assms have "mayHaveSideEffects E (replaceUsesOfWith old new J) = mayHaveSideEffects E J"
    unfolding operandBlind_def replaceUsesOfWith_def by blast
  then show ?thesis by (simp add: stopsStoreScan_def)
qed

lemma forwardScan_stop:
  assumes "b < length F" and "\<not> m < length (F ! b)"
  shows "forwardScan E b c m (F, st) = (F, st)" and "scanEnd E b c m F = m"
  using assms by (simp_all add: forwardScan_def scanEnd_def Let_def)

lemma forwardScan_halt:
  assumes "b < length F" and "m < length (F ! b)"
    and "\<not> passesStoreScan E (getOperand (F ! b ! c) 1) (vty (getOperand (F ! b ! c) 0))
           (F ! b ! m)"
  shows "forwardScan E b c m (F, st) = (F, st)" and "scanEnd E b c m F = m"
  using assms
  by (simp_all add: forwardScan_def scanEnd_def Let_def takeWhile_drop_stop dropWhile_drop_stop)

lemma forwardScan_step:
  assumes "m < length (F ! b)"
    and "passesStoreScan E (getOperand (F ! b ! c) 1) (vty (getOperand (F ! b ! c) 0))
           (F ! b ! m)"
    and "\<not> matchesLoad (getOperand (F ! b ! c) 1) (vty (getOperand (F ! b ! c) 0)) (F ! b ! m)"
  shows "forwardScan E b c m (F, st) = forwardScan E b c (Suc m) (F, st)"
    and "scanEnd E b c m F = scanEnd E b c (Suc m) F"
  using assms
  by (simp_all add: forwardScan_def scanEnd_def Let_def takeWhile_drop_go dropWhile_drop_go
      take_Suc_conv_app_nth)

lemma storeScoped_Suc:
  assumes "storeScoped E F b c m" and "m < length (F ! b)"
    and "passesStoreScan E (getOperand (F ! b ! c) 1) (vty (getOperand (F ! b ! c) 0))
           (F ! b ! m)"
  shows "storeScoped E F b c (Suc m)"
  using assms(1)
  unfolding storeScoped_def Let_def
    takeWhile_drop_go [of m "F ! b"
      "passesStoreScan E (getOperand (F ! b ! c) 1) (vty (getOperand (F ! b ! c) 0))",
      OF assms(2,3)]
  by simp

lemma forwardScan_erase:
  assumes b: "b < length F" and m: "m < length (F ! b)" and c: "c < m"
    and f: "forwardsToLoad F b c m" and sc: "storeScoped E F b c m" and ob: "operandBlind E"
  defines "G \<equiv> eraseFromParent b m
      (replaceAllUsesWith (self (F ! b ! m)) (getOperand (F ! b ! c) 0) F)"
  shows "forwardScan E b c m (G, st\<lparr>CSEStore2Load := CSEStore2Load st + 1\<rparr>) =
      forwardScan E b c m (F, st)"
    and "scanEnd E b c m G = scanEnd E b c m F"
    and "storeScoped E G b c m"
    and "getOperand (F ! b ! c) 0 \<noteq> self (F ! b ! m)"
proof -
  let ?blk = "F ! b"
  let ?L = "?blk ! m"
  let ?cur = "?blk ! c"
  let ?P = "getOperand ?cur 1"
  let ?V = "getOperand ?cur 0"
  let ?T = "vty ?V"
  let ?Q = "passesStoreScan E ?P ?T"
  let ?s = "replaceUsesOfWith (self ?L) ?V"
  have mL: "matchesLoad ?P ?T ?L"
    using f by (simp add: forwardsToLoad_matchesLoad)
  then have qL: "?Q ?L"
    by (simp add: passesStoreScan_def)
  have VP: "?V \<noteq> ?P"
    using sc by (simp add: storeScoped_def Let_def)
  have seg: "takeWhile ?Q (drop m ?blk) = ?L # takeWhile ?Q (drop (Suc m) ?blk)"
    using m qL by (rule takeWhile_drop_go)
  have LP: "self ?L \<noteq> ?P" and LV: "self ?L \<noteq> ?V"
    using sc mL unfolding storeScoped_def Let_def seg by simp_all
  show "?V \<noteq> self ?L"
    using LV by simp
  have Gb: "G ! b = map ?s (take m ?blk) @ map ?s (drop (Suc m) ?blk)"
    using b by (simp add: G_def take_map drop_map)
  have Gc: "G ! b ! c = ?s ?cur"
    using c m by (simp add: Gb nth_append)
  have P': "getOperand (G ! b ! c) 1 = ?P"
    unfolding Gc using LP by (simp add: getOperand_replaceUsesOfWith_other)
  have V': "getOperand (G ! b ! c) 0 = ?V"
    unfolding Gc using LV by (simp add: getOperand_replaceUsesOfWith_other)
  have takeG: "take m (G ! b) = map ?s (take m ?blk)"
    using m by (simp add: Gb)
  have dropG: "drop m (G ! b) = map ?s (drop (Suc m) ?blk)"
    using m by (simp add: Gb)
  have ms: "matchesLoad ?P ?T (?s J) = matchesLoad ?P ?T J" for J
    using LP VP by (simp add: matchesLoad_replaceUsesOfWith)
  have "?Q (?s J) = ?Q J" for J
    unfolding passesStoreScan_def ms stopsStoreScan_replaceUsesOfWith [OF ob] ..
  then have qs: "?Q \<circ> ?s = ?Q"
    by (simp only: fun_eq_iff comp_def) simp
  have segG: "takeWhile ?Q (drop m (G ! b)) = map ?s (takeWhile ?Q (drop (Suc m) ?blk))"
    unfolding dropG takeWhile_map qs ..
  have restG: "dropWhile ?Q (drop m (G ! b)) = map ?s (dropWhile ?Q (drop (Suc m) ?blk))"
    unfolding dropG dropWhile_map qs ..
  have rest: "dropWhile ?Q (drop m ?blk) = dropWhile ?Q (drop (Suc m) ?blk)"
    using m qL by (rule dropWhile_drop_go)
  let ?seg' = "takeWhile ?Q (drop (Suc m) ?blk)"
  let ?olds' = "map self (filter (matchesLoad ?P ?T) ?seg')"
  have oldsG: "map self (filter (matchesLoad ?P ?T) (map ?s ?seg')) = ?olds'"
    by (simp add: filter_map comp_def ms del: One_nat_def)
  have filtG: "filter (\<lambda>J. \<not> matchesLoad ?P ?T J) (map ?s ?seg') =
      map ?s (filter (\<lambda>J. \<not> matchesLoad ?P ?T J) ?seg')"
    by (simp add: filter_map comp_def ms del: One_nat_def)
  have comp: "replaceUsesOfAll ?olds' ?V \<circ> ?s = replaceUsesOfAll (self ?L # ?olds') ?V"
    by (rule replaceUsesOfAll_comp)
  have mapG: "map (map (replaceUsesOfAll ?olds' ?V)) G =
      (map (map (replaceUsesOfAll (self ?L # ?olds') ?V)) F)
        [b := map (replaceUsesOfAll ?olds' ?V) (G ! b)]"
    using b by (simp add: G_def eraseFromParent_def replaceAllUsesWith_def map_update
        comp [unfolded comp_def] comp_def take_map drop_map del: One_nat_def)
  show "forwardScan E b c m (G, st\<lparr>CSEStore2Load := CSEStore2Load st + 1\<rparr>) =
      forwardScan E b c m (F, st)"
    unfolding forwardScan_def Let_def fst_conv snd_conv P' V' segG restG seg rest oldsG
      filtG mapG takeG
    using mL by (simp add: comp del: One_nat_def)
  show "scanEnd E b c m G = scanEnd E b c m F"
    unfolding scanEnd_def Let_def P' V' segG seg filtG
    using mL by (simp del: One_nat_def)
  show "storeScoped E G b c m"
    unfolding storeScoped_def Let_def P' V' segG
    using sc VP unfolding storeScoped_def Let_def seg
    by (simp add: ms del: One_nat_def)
qed

lemma eliminateStore_loop_closed:
  "b < length F \<Longrightarrow> c < m \<Longrightarrow> operandBlind E \<Longrightarrow> storeScoped E F b c m \<Longrightarrow>
   eliminateStore_loop E b c m (F, st) = Inr (storeScan E b c m (F, st))"
proof (induction m "(F, st)" arbitrary: F st
    rule: eliminateStore_loop_induct [where E = E and b = b and c = c])
  case (stop m F st)
  then show ?case
    by (simp add: eliminateStore_loop_stop storeScan_def Let_def forwardScan_stop)
next
  case (self m F st)
  then show ?case
    using forwardScan_erase(4) [of b F m c E] by simp
next
  case (forward m F st)
  let ?G = "eraseFromParent b m
      (replaceAllUsesWith (self (F ! b ! m)) (getOperand (F ! b ! c) 0) F)"
  let ?st = "st\<lparr>CSEStore2Load := CSEStore2Load st + 1\<rparr>"
  note e = forwardScan_erase [OF forward.hyps(1,2) forward.prems(2) forward.hyps(3)
      forward.prems(4,3)]
  have "eliminateStore_loop E b c m (F, st) = eliminateStore_loop E b c m (?G, ?st)"
    using forward.hyps(1,2,3,4) by (rule eliminateStore_loop_forward)
  also have "\<dots> = Inr (storeScan E b c m (?G, ?st))"
    using forward.hyps(5) forward.hyps(1) forward.prems(2,3) e(3) by simp
  also have "storeScan E b c m (?G, ?st) = storeScan E b c m (F, st)"
    unfolding storeScan_def fst_conv e(1) e(2) ..
  finally show ?case .
next
  case (overwrite m F st)
  have "\<not> passesStoreScan E (getOperand (F ! b ! c) 1) (vty (getOperand (F ! b ! c) 0))
      (F ! b ! m)"
    using overwrite.hyps(3,4)
    by (simp add: passesStoreScan_def forwardsToLoad_matchesLoad overwrittenBy_stops)
  note h = forwardScan_halt [OF overwrite.hyps(1,2) this]
  show ?case
    using overwrite.hyps
    by (simp add: eliminateStore_loop_overwrite storeScan_def Let_def h)
next
  case (barrier m F st)
  have "\<not> passesStoreScan E (getOperand (F ! b ! c) 1) (vty (getOperand (F ! b ! c) 0))
      (F ! b ! m)"
    using barrier.hyps(3,5)
    by (simp add: passesStoreScan_def forwardsToLoad_matchesLoad)
  note h = forwardScan_halt [OF barrier.hyps(1,2) this]
  show ?case
    using barrier.hyps
    by (simp add: eliminateStore_loop_barrier storeScan_def Let_def h)
next
  case (step m F st)
  have q: "passesStoreScan E (getOperand (F ! b ! c) 1) (vty (getOperand (F ! b ! c) 0))
      (F ! b ! m)"
    using step.hyps(5) by (simp add: passesStoreScan_def)
  have n: "\<not> matchesLoad (getOperand (F ! b ! c) 1) (vty (getOperand (F ! b ! c) 0))
      (F ! b ! m)"
    using step.hyps(3) by (simp add: forwardsToLoad_matchesLoad)
  note g = forwardScan_step [OF step.hyps(2) q n]
  have "storeScoped E F b c (Suc m)"
    using step.prems(4) step.hyps(2) q by (rule storeScoped_Suc)
  then have "eliminateStore_loop E b c (Suc m) (F, st) =
      Inr (storeScan E b c (Suc m) (F, st))"
    using step.hyps(6) step.prems(1,2,3) by simp
  then show ?case
    using step.hyps(1,2,3,4,5)
    by (simp add: eliminateStore_loop_step storeScan_def Let_def g)
qed

lemma eliminateStore_loop_bumps:
  assumes "eliminateStore_loop E b c m (F, st) = Inr (s', fl)"
    and "b < length F" and "m < length (F ! b)" and "forwardsToLoad F b c m" and "c < m"
  shows "CSEStore2Load st < CSEStore2Load (snd s')"
proof (cases "getOperand (F ! b ! c) 0 = self (F ! b ! m)")
  case True
  with assms show ?thesis by (simp add: eliminateStore_loop_self)
next
  case False
  let ?G = "eraseFromParent b m
      (replaceAllUsesWith (self (F ! b ! m)) (getOperand (F ! b ! c) 0) F)"
  let ?st = "st\<lparr>CSEStore2Load := CSEStore2Load st + 1\<rparr>"
  have "eliminateStore_loop E b c m (?G, ?st) = Inr (s', fl)"
    using assms(1,2,3,4) False by (simp add: eliminateStore_loop_forward)
  from eliminateStore_loop_account [OF this assms(5)] show ?thesis
    by simp
qed

text \<open>
  \<open>store 42, %p; call; %l = load %p; ret %l\<close>, with the \<open>alloca\<close> of \<open>%p\<close> in front.
\<close>

definition call_between_example :: func where
  "call_between_example =
     [[inst 10 2 (MemoryOp Alloca) [Val 1 1],
       inst 11 0 (MemoryOp Store) [Val 42 1, Val 10 2],
       inst 12 0 (OtherOp Call) [Val 5 3],
       inst 13 1 (MemoryOp Load) [Val 10 2],
       inst 14 0 (TermOp Ret) [Val 13 1]]]"

text \<open>
  Claim C4 says that every later non-volatile load of the pointer of the store, with
  the type of the stored value, is forwarded to and erased. The scan of
  \<^verbatim>\<open>eliminateStore\<close> ends at the first load it does not forward to, store, call or
  instruction with side effects, so it never reaches a load behind one of these: here
  the load behind the call matches the store and stays, and no counter moves.
\<close>

theorem load_behind_call_counterexample:
  "opcode (call_between_example ! 0 ! 1) = MemoryOp Store \<and>
   opcode (call_between_example ! 0 ! 3) = MemoryOp Load \<and>
   \<not> isVolatile (call_between_example ! 0 ! 3) \<and>
   getOperand (call_between_example ! 0 ! 3) 0 = getOperand (call_between_example ! 0 ! 1) 1 \<and>
   getType (call_between_example ! 0 ! 3) =
     vty (getOperand (call_between_example ! 0 ! 1) 0) \<and>
   eliminateStore plain_services 0 1 (call_between_example, no_stats) =
     Inr ((call_between_example, no_stats), False) \<and>
   CommonSubexpressionElimination plain_services [call_between_example] no_stats =
     Inr ([call_between_example], no_stats)"
  by code_simp

text \<open>
  Claim C4, amended. When the scan of \<^verbatim>\<open>eliminateStore\<close> from the store at index \<open>c\<close>
  (pointer operand \<open>P\<close>, stored value \<open>V\<close>) is at a later instruction \<open>L\<close> (index \<open>m\<close>) that
  is a non-volatile load of \<open>P\<close> whose type is the type of \<open>V\<close>, and \<open>V\<close> is not \<open>L\<close> itself,
  then: every operand of the function that named \<open>L\<close> now names \<open>V\<close>; \<open>L\<close> is unlinked from
  the block, whose other instructions keep their order; the use list of \<open>L\<close> is empty;
  \<open>CSEStore2Load\<close> is bumped; the scan goes on at the same index, which now denotes the
  successor of \<open>L\<close>. When \<open>V\<close> is \<open>L\<close> itself, the pass does not return. For a well-scoped
  store the whole of \<^verbatim>\<open>eliminateStore\<close> is \<open>storeScan\<close>: it forwards to every matching load
  that only matching loads and harmless instructions separate from the store, once
  each, and to no load behind the first other load, store, call or instruction with
  side effects.
\<close>

theorem R5_store_to_load_forwarding:
  "(b < length F \<and> m < length (F ! b) \<and>
    opcode (F ! b ! m) = MemoryOp Load \<and> \<not> isVolatile (F ! b ! m) \<and>
    getOperand (F ! b ! m) 0 = getOperand (F ! b ! c) 1 \<and>
    getType (F ! b ! m) = vty (getOperand (F ! b ! c) 0) \<and>
    getOperand (F ! b ! c) 0 \<noteq> self (F ! b ! m) \<longrightarrow>
      (let L = F ! b ! m; V = getOperand (F ! b ! c) 0;
           G = eraseFromParent b m (replaceAllUsesWith (self L) V F)
       in eliminateStore_loop E b c m (F, st) =
            eliminateStore_loop E b c m (G, st\<lparr>CSEStore2Load := CSEStore2Load st + 1\<rparr>) \<and>
          G ! b = map (replaceUsesOfWith (self L) V) (take m (F ! b) @ drop (Suc m) (F ! b)) \<and>
          (\<forall>u < length F. u \<noteq> b \<longrightarrow> G ! u = map (replaceUsesOfWith (self L) V) (F ! u)) \<and>
          use_empty G L)) \<and>
   (b < length F \<and> m < length (F ! b) \<and>
    opcode (F ! b ! m) = MemoryOp Load \<and> \<not> isVolatile (F ! b ! m) \<and>
    getOperand (F ! b ! m) 0 = getOperand (F ! b ! c) 1 \<and>
    getType (F ! b ! m) = vty (getOperand (F ! b ! c) 0) \<and>
    getOperand (F ! b ! c) 0 = self (F ! b ! m) \<longrightarrow>
      eliminateStore_loop E b c m (F, st) = Inl SelfReplace) \<and>
   (b < length F \<and> m < length (F ! b) \<and> c < m \<and>
    opcode (F ! b ! m) = MemoryOp Load \<and> \<not> isVolatile (F ! b ! m) \<and>
    getOperand (F ! b ! m) 0 = getOperand (F ! b ! c) 1 \<and>
    getType (F ! b ! m) = vty (getOperand (F ! b ! c) 0) \<and>
    eliminateStore_loop E b c m (F, st) = Inr ((F', st'), fl) \<longrightarrow>
      CSEStore2Load st < CSEStore2Load st') \<and>
   (b < length F \<and> operandBlind E \<and> storeScoped E F b c (Suc c) \<longrightarrow>
      eliminateStore E b c (F, st) = Inr (storeScan E b c (Suc c) (F, st)))"
proof (intro conjI impI)
  assume a: "b < length F \<and> m < length (F ! b) \<and>
    opcode (F ! b ! m) = MemoryOp Load \<and> \<not> isVolatile (F ! b ! m) \<and>
    getOperand (F ! b ! m) 0 = getOperand (F ! b ! c) 1 \<and>
    getType (F ! b ! m) = vty (getOperand (F ! b ! c) 0) \<and>
    getOperand (F ! b ! c) 0 \<noteq> self (F ! b ! m)"
  then have f: "forwardsToLoad F b c m" and b: "b < length F" and m: "m < length (F ! b)"
    and n: "getOperand (F ! b ! c) 0 \<noteq> self (F ! b ! m)"
    by (simp_all add: forwardsToLoad_def)
  let ?L = "F ! b ! m"
  let ?V = "getOperand (F ! b ! c) 0"
  let ?G = "eraseFromParent b m (replaceAllUsesWith (self ?L) ?V F)"
  have 1: "eliminateStore_loop E b c m (F, st) =
      eliminateStore_loop E b c m (?G, st\<lparr>CSEStore2Load := CSEStore2Load st + 1\<rparr>)"
    using b m f n by (rule eliminateStore_loop_forward)
  have 2: "?G ! b = map (replaceUsesOfWith (self ?L) ?V) (take m (F ! b) @ drop (Suc m) (F ! b))"
    using b by (simp add: take_map drop_map)
  have 3: "\<forall>u < length F. u \<noteq> b \<longrightarrow> ?G ! u = map (replaceUsesOfWith (self ?L) ?V) (F ! u)"
    by simp
  have 4: "use_empty ?G ?L"
    using n by (simp add: use_empty_eraseFromParent use_empty_replaceAllUsesWith)
  from 1 2 3 4 show "let L = F ! b ! m; V = getOperand (F ! b ! c) 0;
           G = eraseFromParent b m (replaceAllUsesWith (self L) V F)
       in eliminateStore_loop E b c m (F, st) =
            eliminateStore_loop E b c m (G, st\<lparr>CSEStore2Load := CSEStore2Load st + 1\<rparr>) \<and>
          G ! b = map (replaceUsesOfWith (self L) V) (take m (F ! b) @ drop (Suc m) (F ! b)) \<and>
          (\<forall>u < length F. u \<noteq> b \<longrightarrow> G ! u = map (replaceUsesOfWith (self L) V) (F ! u)) \<and>
          use_empty G L"
    unfolding Let_def by blast
next
  assume "b < length F \<and> m < length (F ! b) \<and>
    opcode (F ! b ! m) = MemoryOp Load \<and> \<not> isVolatile (F ! b ! m) \<and>
    getOperand (F ! b ! m) 0 = getOperand (F ! b ! c) 1 \<and>
    getType (F ! b ! m) = vty (getOperand (F ! b ! c) 0) \<and>
    getOperand (F ! b ! c) 0 = self (F ! b ! m)"
  then show "eliminateStore_loop E b c m (F, st) = Inl SelfReplace"
    by (intro eliminateStore_loop_self) (simp_all add: forwardsToLoad_def)
next
  assume a: "b < length F \<and> m < length (F ! b) \<and> c < m \<and>
    opcode (F ! b ! m) = MemoryOp Load \<and> \<not> isVolatile (F ! b ! m) \<and>
    getOperand (F ! b ! m) 0 = getOperand (F ! b ! c) 1 \<and>
    getType (F ! b ! m) = vty (getOperand (F ! b ! c) 0) \<and>
    eliminateStore_loop E b c m (F, st) = Inr ((F', st'), fl)"
  then have "forwardsToLoad F b c m"
    by (simp add: forwardsToLoad_def)
  with a show "CSEStore2Load st < CSEStore2Load st'"
    using eliminateStore_loop_bumps [of E b c m F st "(F', st')" fl] by simp
next
  assume "b < length F \<and> operandBlind E \<and> storeScoped E F b c (Suc c)"
  then show "eliminateStore E b c (F, st) = Inr (storeScan E b c (Suc c) (F, st))"
    unfolding eliminateStore_def by (simp add: eliminateStore_loop_closed)
qed

text \<open>
  Scenario 5 of the specification, \<open>store 42, %p; %l1 = load %p; %t = add %l1, 1;
  %l2 = load %p\<close> with the \<open>alloca\<close> of \<open>%p\<close> in front, followed by a call and a third
  load of \<open>%p\<close>: the first two loads are forwarded to, the third is not.
\<close>

definition forwarding_example :: func where
  "forwarding_example =
     [[inst 10 2 (MemoryOp Alloca) [Val 1 1],
       inst 11 0 (MemoryOp Store) [Val 42 1, Val 10 2],
       inst 12 1 (MemoryOp Load) [Val 10 2],
       inst 13 1 (BinaryOp Add) [Val 12 1, Val 1 1],
       inst 14 1 (MemoryOp Load) [Val 10 2],
       inst 15 0 (OtherOp Call) [Val 5 3, Val 14 1],
       inst 16 1 (MemoryOp Load) [Val 10 2],
       inst 17 0 (TermOp Ret) [Val 16 1]]]"

text \<open>A store of the value of a later load, as a block that no branch reaches may hold.\<close>

definition self_store_example :: func where
  "self_store_example =
     [[inst 11 0 (MemoryOp Store) [Val 12 1, Val 10 2],
       inst 12 1 (MemoryOp Load) [Val 10 2],
       inst 13 0 (TermOp Ret) [Val 12 1]]]"

theorem R5_store_to_load_forwarding_witness:
  "0 < length forwarding_example \<and> 2 < length (forwarding_example ! 0) \<and>
   opcode (forwarding_example ! 0 ! 2) = MemoryOp Load \<and>
   \<not> isVolatile (forwarding_example ! 0 ! 2) \<and>
   getOperand (forwarding_example ! 0 ! 2) 0 = getOperand (forwarding_example ! 0 ! 1) 1 \<and>
   getType (forwarding_example ! 0 ! 2) = vty (getOperand (forwarding_example ! 0 ! 1) 0) \<and>
   getOperand (forwarding_example ! 0 ! 1) 0 \<noteq> self (forwarding_example ! 0 ! 2) \<and>
   eliminateStore_loop plain_services 0 1 2 (forwarding_example, no_stats) =
     eliminateStore_loop plain_services 0 1 2
       ([[inst 10 2 (MemoryOp Alloca) [Val 1 1],
          inst 11 0 (MemoryOp Store) [Val 42 1, Val 10 2],
          inst 13 1 (BinaryOp Add) [Val 42 1, Val 1 1],
          inst 14 1 (MemoryOp Load) [Val 10 2],
          inst 15 0 (OtherOp Call) [Val 5 3, Val 14 1],
          inst 16 1 (MemoryOp Load) [Val 10 2],
          inst 17 0 (TermOp Ret) [Val 16 1]]],
        no_stats\<lparr>CSEStore2Load := 1\<rparr>) \<and>
   operandBlind plain_services \<and> storeScoped plain_services forwarding_example 0 1 (Suc 1) \<and>
   eliminateStore plain_services 0 1 (forwarding_example, no_stats) =
     Inr (([[inst 10 2 (MemoryOp Alloca) [Val 1 1],
             inst 11 0 (MemoryOp Store) [Val 42 1, Val 10 2],
             inst 13 1 (BinaryOp Add) [Val 42 1, Val 1 1],
             inst 15 0 (OtherOp Call) [Val 5 3, Val 42 1],
             inst 16 1 (MemoryOp Load) [Val 10 2],
             inst 17 0 (TermOp Ret) [Val 16 1]]],
           no_stats\<lparr>CSEStore2Load := 2\<rparr>), False) \<and>
   opcode (self_store_example ! 0 ! 1) = MemoryOp Load \<and>
   getOperand (self_store_example ! 0 ! 0) 0 = self (self_store_example ! 0 ! 1) \<and>
   eliminateStore_loop plain_services 0 0 1 (self_store_example, no_stats) = Inl SelfReplace"
proof -
  have a: "0 < length forwarding_example" "2 < length (forwarding_example ! 0)"
    "opcode (forwarding_example ! 0 ! 2) = MemoryOp Load"
    "\<not> isVolatile (forwarding_example ! 0 ! 2)"
    "getOperand (forwarding_example ! 0 ! 2) 0 = getOperand (forwarding_example ! 0 ! 1) 1"
    "getType (forwarding_example ! 0 ! 2) = vty (getOperand (forwarding_example ! 0 ! 1) 0)"
    "getOperand (forwarding_example ! 0 ! 1) 0 \<noteq> self (forwarding_example ! 0 ! 2)"
    by code_simp+
  have g: "eraseFromParent 0 2
       (replaceAllUsesWith (self (forwarding_example ! 0 ! 2))
          (getOperand (forwarding_example ! 0 ! 1) 0) forwarding_example) =
     [[inst 10 2 (MemoryOp Alloca) [Val 1 1],
       inst 11 0 (MemoryOp Store) [Val 42 1, Val 10 2],
       inst 13 1 (BinaryOp Add) [Val 42 1, Val 1 1],
       inst 14 1 (MemoryOp Load) [Val 10 2],
       inst 15 0 (OtherOp Call) [Val 5 3, Val 14 1],
       inst 16 1 (MemoryOp Load) [Val 10 2],
       inst 17 0 (TermOp Ret) [Val 16 1]]]"
    by code_simp
  have n: "no_stats\<lparr>CSEStore2Load := CSEStore2Load no_stats + 1\<rparr> =
      no_stats\<lparr>CSEStore2Load := 1\<rparr>"
    by code_simp
  have ob: "operandBlind plain_services"
    by (simp add: operandBlind_def plain_services_def)
  have sc: "storeScoped plain_services forwarding_example 0 1 (Suc 1)"
    by code_simp
  have e: "storeScan plain_services 0 1 (Suc 1) (forwarding_example, no_stats) =
     (([[inst 10 2 (MemoryOp Alloca) [Val 1 1],
         inst 11 0 (MemoryOp Store) [Val 42 1, Val 10 2],
         inst 13 1 (BinaryOp Add) [Val 42 1, Val 1 1],
         inst 15 0 (OtherOp Call) [Val 5 3, Val 42 1],
         inst 16 1 (MemoryOp Load) [Val 10 2],
         inst 17 0 (TermOp Ret) [Val 16 1]]],
       no_stats\<lparr>CSEStore2Load := 2\<rparr>), False)"
    by code_simp
  have s: "0 < length self_store_example" "1 < length (self_store_example ! 0)"
    "opcode (self_store_example ! 0 ! 1) = MemoryOp Load"
    "\<not> isVolatile (self_store_example ! 0 ! 1)"
    "getOperand (self_store_example ! 0 ! 1) 0 = getOperand (self_store_example ! 0 ! 0) 1"
    "getType (self_store_example ! 0 ! 1) = vty (getOperand (self_store_example ! 0 ! 0) 0)"
    "getOperand (self_store_example ! 0 ! 0) 0 = self (self_store_example ! 0 ! 1)"
    by code_simp+
  note r = R5_store_to_load_forwarding [where F = forwarding_example and b = 0 and c = 1
      and m = 2 and E = plain_services and st = no_stats, unfolded Let_def]
  from r a have
    c1: "eliminateStore_loop plain_services 0 1 2 (forwarding_example, no_stats) =
      eliminateStore_loop plain_services 0 1 2
        (eraseFromParent 0 2
           (replaceAllUsesWith (self (forwarding_example ! 0 ! 2))
              (getOperand (forwarding_example ! 0 ! 1) 0) forwarding_example),
         no_stats\<lparr>CSEStore2Load := CSEStore2Load no_stats + 1\<rparr>)"
    by blast
  from r a(1) ob sc have
    "eliminateStore plain_services 0 1 (forwarding_example, no_stats) =
      Inr (storeScan plain_services 0 1 (Suc 1) (forwarding_example, no_stats))"
    by blast
  then have c4: "eliminateStore plain_services 0 1 (forwarding_example, no_stats) =
     Inr (([[inst 10 2 (MemoryOp Alloca) [Val 1 1],
             inst 11 0 (MemoryOp Store) [Val 42 1, Val 10 2],
             inst 13 1 (BinaryOp Add) [Val 42 1, Val 1 1],
             inst 15 0 (OtherOp Call) [Val 5 3, Val 42 1],
             inst 16 1 (MemoryOp Load) [Val 10 2],
             inst 17 0 (TermOp Ret) [Val 16 1]]],
           no_stats\<lparr>CSEStore2Load := 2\<rparr>), False)"
    unfolding e .
  from R5_store_to_load_forwarding [where F = self_store_example and b = 0 and c = 0
      and m = 1 and E = plain_services and st = no_stats] s
  have c2: "eliminateStore_loop plain_services 0 0 1 (self_store_example, no_stats) =
      Inl SelfReplace"
    by blast
  show ?thesis
    by (intro conjI a c1 [unfolded g n] ob sc c4 s(3) s(7) c2)
qed

lemma Store_not_dead: "opcode I = MemoryOp Store \<Longrightarrow> \<not> isDead F I"
  by (simp add: isDead_def)

lemma cse_step_store:
  assumes "opcode (F ! b ! i) = MemoryOp Store"
    and "SimplifyInstruction E F (F ! b ! i) = None"
  shows "cse_step E b i (F, st) =
     (case eliminateStore E b i (F, st) of
        Inl e \<Rightarrow> Inl e
      | Inr (s3, inc_flag) \<Rightarrow> Inr (s3, if inc_flag then i else Suc i))"
  using assms
  by (simp add: cse_step_def Store_not_dead isValidForCSE_def)

lemma eliminateStore_loop_cursor:
  "eliminateStore_loop E b c m (F, st) = Inr (s', True) \<Longrightarrow> c < m \<Longrightarrow>
   c < length (fst s' ! b)"
proof (induction m "(F, st)" arbitrary: F st
    rule: eliminateStore_loop_induct [where E = E and b = b and c = c])
  case (stop m F st)
  then show ?case by (simp add: eliminateStore_loop_stop)
next
  case (self m F st)
  then show ?case by (simp add: eliminateStore_loop_self)
next
  case (forward m F st)
  then show ?case by (simp add: eliminateStore_loop_forward)
next
  case (overwrite m F st)
  then show ?case by (auto simp: eliminateStore_loop_overwrite)
next
  case (barrier m F st)
  then show ?case by (simp add: eliminateStore_loop_barrier)
next
  case (step m F st)
  then show ?case by (simp add: eliminateStore_loop_step)
qed

lemma Store_not_forwardsToLoad:
  "opcode (F ! b ! m) = MemoryOp Store \<Longrightarrow> \<not> forwardsToLoad F b c m"
  by (simp add: forwardsToLoad_def)

text \<open>
  Claim C2. When the scan from the store at index \<open>c\<close> is at a later store (index \<open>m\<close>)
  with the same pointer operand and the same type of stored value, and the current
  store is not volatile, the current store is erased, \<open>CSEStElim\<close> is bumped, and the scan
  ends with \<^verbatim>\<open>inc_flag\<close> set. For a store at the cursor that rule R2 leaves in place, the
  driver's step is \<^verbatim>\<open>eliminateStore\<close>, and the cursor keeps its index when the flag is set;
  that index is then inside the block. When the overwriting store is the next
  instruction, it is the instruction under the cursor after the step.
\<close>

theorem R5_overwritten_store:
  "(b < length F \<and> m < length (F ! b) \<and> opcode (F ! b ! m) = MemoryOp Store \<and>
    getOperand (F ! b ! m) 1 = getOperand (F ! b ! c) 1 \<and>
    vty (getOperand (F ! b ! m) 0) = vty (getOperand (F ! b ! c) 0) \<and>
    \<not> isVolatile (F ! b ! c) \<longrightarrow>
      eliminateStore_loop E b c m (F, st) =
      Inr ((eraseFromParent b c F, st\<lparr>CSEStElim := CSEStElim st + 1\<rparr>), True)) \<and>
   (opcode (F ! b ! i) = MemoryOp Store \<and> SimplifyInstruction E F (F ! b ! i) = None \<longrightarrow>
      cse_step E b i (F, st) =
      (case eliminateStore E b i (F, st) of
         Inl e \<Rightarrow> Inl e
       | Inr (s3, inc_flag) \<Rightarrow> Inr (s3, if inc_flag then i else Suc i))) \<and>
   (eliminateStore E b i (F, st) = Inr ((F', st'), True) \<longrightarrow> i < length (F' ! b)) \<and>
   (b < length F \<and> Suc i < length (F ! b) \<and> opcode (F ! b ! i) = MemoryOp Store \<and>
    SimplifyInstruction E F (F ! b ! i) = None \<and> \<not> isVolatile (F ! b ! i) \<and>
    opcode (F ! b ! Suc i) = MemoryOp Store \<and>
    getOperand (F ! b ! Suc i) 1 = getOperand (F ! b ! i) 1 \<and>
    vty (getOperand (F ! b ! Suc i) 0) = vty (getOperand (F ! b ! i) 0) \<longrightarrow>
      cse_step E b i (F, st) =
        Inr ((eraseFromParent b i F, st\<lparr>CSEStElim := CSEStElim st + 1\<rparr>), i) \<and>
      eraseFromParent b i F ! b ! i = F ! b ! Suc i)"
proof (intro conjI impI)
  assume "b < length F \<and> m < length (F ! b) \<and> opcode (F ! b ! m) = MemoryOp Store \<and>
    getOperand (F ! b ! m) 1 = getOperand (F ! b ! c) 1 \<and>
    vty (getOperand (F ! b ! m) 0) = vty (getOperand (F ! b ! c) 0) \<and>
    \<not> isVolatile (F ! b ! c)"
  then show "eliminateStore_loop E b c m (F, st) =
      Inr ((eraseFromParent b c F, st\<lparr>CSEStElim := CSEStElim st + 1\<rparr>), True)"
    by (intro eliminateStore_loop_overwrite)
      (simp_all add: Store_not_forwardsToLoad overwrittenBy_def)
next
  assume "opcode (F ! b ! i) = MemoryOp Store \<and> SimplifyInstruction E F (F ! b ! i) = None"
  then show "cse_step E b i (F, st) =
      (case eliminateStore E b i (F, st) of
         Inl e \<Rightarrow> Inl e
       | Inr (s3, inc_flag) \<Rightarrow> Inr (s3, if inc_flag then i else Suc i))"
    by (simp add: cse_step_store)
next
  assume "eliminateStore E b i (F, st) = Inr ((F', st'), True)"
  then have "i < length (fst (F', st') ! b)"
    unfolding eliminateStore_def by (rule eliminateStore_loop_cursor) simp
  then show "i < length (F' ! b)"
    by simp
next
  assume a: "b < length F \<and> Suc i < length (F ! b) \<and> opcode (F ! b ! i) = MemoryOp Store \<and>
    SimplifyInstruction E F (F ! b ! i) = None \<and> \<not> isVolatile (F ! b ! i) \<and>
    opcode (F ! b ! Suc i) = MemoryOp Store \<and>
    getOperand (F ! b ! Suc i) 1 = getOperand (F ! b ! i) 1 \<and>
    vty (getOperand (F ! b ! Suc i) 0) = vty (getOperand (F ! b ! i) 0)"
  then have "eliminateStore_loop E b i (Suc i) (F, st) =
      Inr ((eraseFromParent b i F, st\<lparr>CSEStElim := CSEStElim st + 1\<rparr>), True)"
    by (intro eliminateStore_loop_overwrite)
      (simp_all add: Store_not_forwardsToLoad overwrittenBy_def)
  with a show "cse_step E b i (F, st) =
      Inr ((eraseFromParent b i F, st\<lparr>CSEStElim := CSEStElim st + 1\<rparr>), i)"
    by (simp add: cse_step_store eliminateStore_def)
next
  assume "b < length F \<and> Suc i < length (F ! b) \<and> opcode (F ! b ! i) = MemoryOp Store \<and>
    SimplifyInstruction E F (F ! b ! i) = None \<and> \<not> isVolatile (F ! b ! i) \<and>
    opcode (F ! b ! Suc i) = MemoryOp Store \<and>
    getOperand (F ! b ! Suc i) 1 = getOperand (F ! b ! i) 1 \<and>
    vty (getOperand (F ! b ! Suc i) 0) = vty (getOperand (F ! b ! i) 0)"
  then show "eraseFromParent b i F ! b ! i = F ! b ! Suc i"
    by (simp add: nth_append)
qed

text \<open>Scenario 6 of the specification: \<open>store 1, %p; store 2, %p; ret\<close>.\<close>

definition two_stores_example :: func where
  "two_stores_example =
     [[inst 10 0 (MemoryOp Store) [Val 1 1, Val 0 2],
       inst 11 0 (MemoryOp Store) [Val 2 1, Val 0 2],
       inst 12 0 (TermOp Ret) []]]"

theorem R5_overwritten_store_witness:
  "0 < length two_stores_example \<and> Suc 0 < length (two_stores_example ! 0) \<and>
   opcode (two_stores_example ! 0 ! 0) = MemoryOp Store \<and>
   SimplifyInstruction plain_services two_stores_example (two_stores_example ! 0 ! 0) = None \<and>
   \<not> isVolatile (two_stores_example ! 0 ! 0) \<and>
   opcode (two_stores_example ! 0 ! Suc 0) = MemoryOp Store \<and>
   getOperand (two_stores_example ! 0 ! Suc 0) 1 = getOperand (two_stores_example ! 0 ! 0) 1 \<and>
   vty (getOperand (two_stores_example ! 0 ! Suc 0) 0) =
     vty (getOperand (two_stores_example ! 0 ! 0) 0) \<and>
   eliminateStore_loop plain_services 0 0 (Suc 0) (two_stores_example, no_stats) =
     Inr ((eraseFromParent 0 0 two_stores_example,
           no_stats\<lparr>CSEStElim := CSEStElim no_stats + 1\<rparr>), True) \<and>
   cse_step plain_services 0 0 (two_stores_example, no_stats) =
     Inr ((eraseFromParent 0 0 two_stores_example,
           no_stats\<lparr>CSEStElim := CSEStElim no_stats + 1\<rparr>), 0) \<and>
   eraseFromParent 0 0 two_stores_example ! 0 ! 0 = two_stores_example ! 0 ! Suc 0 \<and>
   eliminateStore plain_services 0 0 (two_stores_example, no_stats) =
     Inr ((eraseFromParent 0 0 two_stores_example,
           no_stats\<lparr>CSEStElim := CSEStElim no_stats + 1\<rparr>), True) \<and>
   0 < length (eraseFromParent 0 0 two_stores_example ! 0)"
proof -
  have a: "0 < length two_stores_example" "Suc 0 < length (two_stores_example ! 0)"
    "opcode (two_stores_example ! 0 ! 0) = MemoryOp Store"
    "SimplifyInstruction plain_services two_stores_example (two_stores_example ! 0 ! 0) = None"
    "\<not> isVolatile (two_stores_example ! 0 ! 0)"
    "opcode (two_stores_example ! 0 ! Suc 0) = MemoryOp Store"
    "getOperand (two_stores_example ! 0 ! Suc 0) 1 = getOperand (two_stores_example ! 0 ! 0) 1"
    "vty (getOperand (two_stores_example ! 0 ! Suc 0) 0) =
       vty (getOperand (two_stores_example ! 0 ! 0) 0)"
    by code_simp+
  have f: "eliminateStore plain_services 0 0 (two_stores_example, no_stats) =
     Inr ((eraseFromParent 0 0 two_stores_example,
           no_stats\<lparr>CSEStElim := CSEStElim no_stats + 1\<rparr>), True)"
    by code_simp
  note r = R5_overwritten_store [where F = two_stores_example and b = 0 and c = 0
      and i = 0 and m = "Suc 0" and E = plain_services and st = no_stats
      and F' = "eraseFromParent 0 0 two_stores_example"
      and st' = "no_stats\<lparr>CSEStElim := CSEStElim no_stats + 1\<rparr>"]
  from r a have c1: "eliminateStore_loop plain_services 0 0 (Suc 0) (two_stores_example, no_stats) =
     Inr ((eraseFromParent 0 0 two_stores_example,
           no_stats\<lparr>CSEStElim := CSEStElim no_stats + 1\<rparr>), True)"
    by blast
  from r a have c4: "cse_step plain_services 0 0 (two_stores_example, no_stats) =
     Inr ((eraseFromParent 0 0 two_stores_example,
           no_stats\<lparr>CSEStElim := CSEStElim no_stats + 1\<rparr>), 0)"
    "eraseFromParent 0 0 two_stores_example ! 0 ! 0 = two_stores_example ! 0 ! Suc 0"
    by blast+
  from r f have c3: "0 < length (eraseFromParent 0 0 two_stores_example ! 0)"
    by blast
  show ?thesis
    by (intro conjI a c1 c4 f c3)
qed

end
